theory Spec2Isabelle
  imports Main "HOL-Library.Sublist"
begin

section \<open>Strings\<close>

text \<open>
  Go strings are byte sequences; \<open>string\<close> (a list of 8-bit characters) models them.
  \<open>strings.Contains(s, substr)\<close> holds when \<open>substr\<close> starts at some offset of \<open>s\<close>.
\<close>

fun strings_Contains :: "string \<Rightarrow> string \<Rightarrow> bool" where
  "strings_Contains [] substr = (substr = [])"
| "strings_Contains (c # cs) substr = (prefix substr (c # cs) \<or> strings_Contains cs substr)"

text \<open>
  \<open>strings.ReplaceAll(s, old, new)\<close> scans \<open>s\<close> from the left and replaces the
  non-overlapping occurrences of \<open>old\<close>. For an empty \<open>old\<close> Go inserts \<open>new\<close> at the
  start and after every UTF-8 sequence; the model does so after every byte, which is the
  same on ASCII text (the program only ever passes a non-empty \<open>old\<close>).
\<close>

function strings_ReplaceAll :: "string \<Rightarrow> string \<Rightarrow> string \<Rightarrow> string" where
  "strings_ReplaceAll [] old new = (if old = [] then new else [])"
| "strings_ReplaceAll (c # cs) old new =
     (if old = [] then new @ c # strings_ReplaceAll cs old new
      else if prefix old (c # cs)
        then new @ strings_ReplaceAll (drop (length old) (c # cs)) old new
      else c # strings_ReplaceAll cs old new)"
  by pat_completeness auto
termination
  by (relation "measure (\<lambda>(s, old, new). length s)") (auto simp: neq_Nil_conv)

text \<open>The two literals of lines 250 and 257 of githubops.go.\<close>

definition marker :: string where
  "marker = ''github>MyOrg/''"

definition replacement :: string where
  "replacement = ''github>MyOtherOrg/''"

text \<open>Line 257: \<open>newContent := strings.ReplaceAll(contentStr, "github>MyOrg/", "github>MyOtherOrg/")\<close>.\<close>

definition newContent :: "string \<Rightarrow> string" where
  "newContent contentStr = strings_ReplaceAll contentStr marker replacement"

text \<open>
  Specification vocabulary for the rewrite: the number of offsets of \<open>s\<close> at which \<open>pat\<close>
  starts, and three side conditions on a pair of words that the lemmas below need
  (two words can start at the same offset; no occurrence of \<open>pat\<close> can start inside \<open>q\<close>
  whatever follows \<open>q\<close>; every suffix of \<open>w\<close> is either a common prefix of \<open>old\<close> and \<open>new\<close>
  or cannot start where one of them starts).
\<close>

fun occurrences :: "string \<Rightarrow> string \<Rightarrow> nat" where
  "occurrences [] pat = (if pat = [] then 1 else 0)"
| "occurrences (c # cs) pat = (if prefix pat (c # cs) then 1 else 0) + occurrences cs pat"

definition compat :: "string \<Rightarrow> string \<Rightarrow> bool" where
  "compat u v = (prefix u v \<or> prefix v u)"

fun no_start :: "string \<Rightarrow> string \<Rightarrow> bool" where
  "no_start pat [] = True"
| "no_start pat (c # cs) = (\<not> compat pat (c # cs) \<and> no_start pat cs)"

fun all_safe :: "string \<Rightarrow> string \<Rightarrow> string \<Rightarrow> bool" where
  "all_safe old new [] = True"
| "all_safe old new (c # cs) =
     (((prefix (c # cs) old \<and> prefix (c # cs) new)
        \<or> (\<not> compat (c # cs) old \<and> \<not> compat (c # cs) new))
      \<and> all_safe old new cs)"

section \<open>Data of the GitHub client\<close>

text \<open>
  The fields of \<open>github.Repository\<close> and \<open>github.Response\<close> that the program reads
  (through the nil-safe getters \<open>GetName\<close>, \<open>GetFullName\<close>, \<open>GetOwner().GetLogin()\<close>,
  \<open>GetDefaultBranch\<close>; a missing field reads as the empty string). Go's \<open>int\<close> is
  modelled as \<open>int\<close>: no arithmetic of the program can overflow it. Times are
  nanoseconds on one clock, durations their differences.
\<close>

record repository =
  Owner_Login :: string
  Name :: string
  FullName :: string
  DefaultBranch :: string

record response =
  Status :: string
  StatusCode :: int
  Header :: "(string \<times> string list) list"
  Rate_Limit :: int
  Rate_Remaining :: int
  Rate_Reset :: int
  NextPage :: int

text \<open>
  A \<open>*github.RepositoryContent\<close>, reduced to what \<open>content.GetContent()\<close> returns for it:
  \<open>Inl\<close> the decoding error, \<open>Inr\<close> the decoded text.
\<close>

record repository_content =
  GetContent :: "string + string"

record new_pull_request =
  Title :: string
  Body :: string
  Head :: string
  Base :: string

section \<open>Effects\<close>

text \<open>
  Every call that leaves the process is an event of a trace: the log lines of \<open>g.Log\<close>
  (format and arguments), the API requests, the sleeps, the file-system operations and the
  git commands (argument vector and working directory).
\<close>

datatype arg =
    A_str string
  | A_int int
  | A_duration int
  | A_time int
  | A_header "(string \<times> string list) list"

datatype event =
    Log string "arg list"
  | ListByOrg_call string int
  | GetContents_call string string string
  | Get_call string string
  | Create_call string string new_pull_request
  | Sleep int
  | MkdirAll_call string
  | CreateLogFile_call
  | MkdirTemp_call string string
  | Exec "string list" string
  | WriteFile_call string string
  | RemoveAll_call string

text \<open>
  The outside world answers each call. An answer may depend on everything that happened
  before (the trace so far), so the same request can be answered differently the second
  time. Go's \<open>(value, err)\<close> results are tuples whose last component is the error
  (\<open>None\<close> for \<open>nil\<close>); a \<open>*github.Response\<close> and a \<open>*github.RepositoryContent\<close> may be
  \<open>nil\<close>, hence \<open>option\<close>.
\<close>

record env =
  Repositories_ListByOrg ::
    "event list \<Rightarrow> string \<Rightarrow> int \<Rightarrow> repository list \<times> response option \<times> string option"
  Repositories_GetContents ::
    "event list \<Rightarrow> string \<Rightarrow> string \<Rightarrow> string
       \<Rightarrow> repository_content option \<times> response option \<times> string option"
  Repositories_Get :: "event list \<Rightarrow> string \<Rightarrow> string \<Rightarrow> repository \<times> string option"
  PullRequests_Create :: "event list \<Rightarrow> string \<Rightarrow> string \<Rightarrow> new_pull_request \<Rightarrow> string option"
  time_Now :: "event list \<Rightarrow> int"
  os_MkdirAll :: "event list \<Rightarrow> string \<Rightarrow> string option"
  os_Create :: "event list \<Rightarrow> string option"
  os_MkdirTemp :: "event list \<Rightarrow> string \<Rightarrow> string \<Rightarrow> string \<times> string option"
  os_WriteFile :: "event list \<Rightarrow> string \<Rightarrow> string \<Rightarrow> string option"
  os_RemoveAll :: "event list \<Rightarrow> string \<Rightarrow> string option"
  CombinedOutput :: "event list \<Rightarrow> string list \<Rightarrow> string \<Rightarrow> string \<times> string option"

text \<open>
  The state the program threads: the trace, and the temporary workspaces that exist on
  disk.
\<close>

record state =
  trace :: "event list"
  dirs :: "string set"

definition emit :: "event \<Rightarrow> state \<Rightarrow> state" where
  "emit e s = s\<lparr>trace := trace s @ [e]\<rparr>"

text \<open>Lines 52-56, \<open>g.Log(format, v...)\<close>.\<close>

definition g_Log :: "string \<Rightarrow> arg list \<Rightarrow> state \<Rightarrow> state" where
  "g_Log format v s = emit (Log format v) s"

section \<open>createSignedCommit (lines 149-230)\<close>

text \<open>
  One git command: \<open>exec.Command("git", args...)\<close> with \<open>cmd.Dir = dir\<close>, then
  \<open>cmd.CombinedOutput()\<close>.
\<close>

definition git :: "env \<Rightarrow> string list \<Rightarrow> string \<Rightarrow> state \<Rightarrow> (string \<times> string option) \<times> state" where
  "git E args dir s = (CombinedOutput E (trace s) args dir, emit (Exec args dir) s)"

text \<open>\<open>strings.Join(elems, sep)\<close>.\<close>

fun strings_Join :: "string list \<Rightarrow> string \<Rightarrow> string" where
  "strings_Join [] sep = []"
| "strings_Join [a] sep = a"
| "strings_Join (a # b # bs) sep = a @ sep @ strings_Join (b # bs) sep"

text \<open>
  \<open>filepath.Clean\<close> on a Unix path: the elements between the separators, without the
  empty ones and the \<open>.\<close> ones; a \<open>..\<close> element removes the element before it, is
  dropped at the root, and is kept at the start of a path that is not rooted. And
  \<open>filepath.Join\<close> of two elements: the elements from the first non-empty one on, joined
  by the separator and cleaned.
\<close>

fun split_path :: "string \<Rightarrow> string list" where
  "split_path [] = [[]]"
| "split_path (c # cs) =
     (if c = CHR ''/'' then [] # split_path cs
      else (case split_path cs of
              [] \<Rightarrow> [[c]]
            | e # es \<Rightarrow> (c # e) # es))"

fun clean_elems :: "bool \<Rightarrow> string list \<Rightarrow> string list \<Rightarrow> string list" where
  "clean_elems rooted out [] = rev out"
| "clean_elems rooted out (e # es) =
     (if e = [] \<or> e = ''.'' then clean_elems rooted out es
      else if e = ''..'' then
        (case out of
           [] \<Rightarrow> if rooted then clean_elems rooted [] es else clean_elems rooted [''..''] es
         | x # xs \<Rightarrow>
             if x = ''..'' then clean_elems rooted (''..'' # out) es else clean_elems rooted xs es)
      else clean_elems rooted (e # out) es)"

definition filepath_Clean :: "string \<Rightarrow> string" where
  "filepath_Clean path =
     (if path = [] then ''.''
      else
        (let rooted = (hd path = CHR ''/'');
             body = strings_Join (clean_elems rooted [] (split_path path)) ''/''
         in if rooted then CHR ''/'' # body
            else if body = [] then ''.''
            else body))"

definition filepath_Join :: "string \<Rightarrow> string \<Rightarrow> string" where
  "filepath_Join d f =
     (if d \<noteq> [] then filepath_Clean (d @ ''/'' @ f)
      else if f \<noteq> [] then filepath_Clean f
      else [])"

definition branchName :: string where
  "branchName = ''update-renovate-config''"

text \<open>Lines 220-229: push the branch.\<close>

definition push_branch :: "env \<Rightarrow> string \<Rightarrow> state \<Rightarrow> state \<times> string option" where
  "push_branch E tempDir s0 =
     (let s = g_Log ''Pushing branch to remote'' [] s0;
          ((output, err), s) = git E [''push'', ''origin'', branchName] tempDir s
      in case err of
           Some e \<Rightarrow> (s, Some (''error pushing branch: '' @ e @ '', output: '' @ output))
         | None \<Rightarrow> (g_Log ''Branch pushed successfully'' [] s, None))"

text \<open>Lines 207-218: create the commit, signed when a key is given.\<close>

definition create_commit :: "env \<Rightarrow> string \<Rightarrow> string \<Rightarrow> state \<Rightarrow> state \<times> string option" where
  "create_commit E gpgKeyID tempDir s0 =
     (let commitCmd = [''commit'', ''-m'', ''Update renovate.json to use MyOtherOrg''];
          commitCmd = (if gpgKeyID \<noteq> [] then commitCmd @ [''-S''] else commitCmd);
          s = g_Log ''Creating commit with command: git %s'' [A_str (strings_Join commitCmd '' '')] s0;
          ((output, err), s) = git E commitCmd tempDir s
      in case err of
           Some e \<Rightarrow> (s, Some (''error creating commit: '' @ e @ '', output: '' @ output))
         | None \<Rightarrow> push_branch E tempDir (g_Log ''Commit created successfully'' [] s))"

text \<open>Lines 196-205: configure the signing key, only when one is given.\<close>

definition configure_signing :: "env \<Rightarrow> string \<Rightarrow> string \<Rightarrow> state \<Rightarrow> state \<times> string option" where
  "configure_signing E gpgKeyID tempDir s0 =
     (if gpgKeyID \<noteq> [] then
        (let s = g_Log ''Configuring git for signing with key: %s'' [A_str gpgKeyID] s0;
             ((output, err), s) = git E [''config'', ''user.signingkey'', gpgKeyID] tempDir s
         in case err of
              Some e \<Rightarrow> (s, Some (''error configuring signing key: '' @ e @ '', output: '' @ output))
            | None \<Rightarrow> create_commit E gpgKeyID tempDir (g_Log ''Git signing configured successfully'' [] s))
      else create_commit E gpgKeyID tempDir s0)"

text \<open>Lines 187-194: stage the file.\<close>

definition add_file :: "env \<Rightarrow> string \<Rightarrow> string \<Rightarrow> state \<Rightarrow> state \<times> string option" where
  "add_file E gpgKeyID tempDir s0 =
     (let s = g_Log ''Adding renovate.json to git'' [] s0;
          ((output, err), s) = git E [''add'', ''renovate.json''] tempDir s
      in case err of
           Some e \<Rightarrow> (s, Some (''error adding file: '' @ e @ '', output: '' @ output))
         | None \<Rightarrow> configure_signing E gpgKeyID tempDir (g_Log ''File added to git successfully'' [] s))"

text \<open>Lines 179-185: write the file with \<open>os.WriteFile\<close> (no git command).\<close>

definition write_file :: "env \<Rightarrow> string \<Rightarrow> string \<Rightarrow> string \<Rightarrow> state \<Rightarrow> state \<times> string option" where
  "write_file E content gpgKeyID tempDir s0 =
     (let renovatePath = filepath_Join tempDir ''renovate.json'';
          s = g_Log ''Writing renovate.json to: %s'' [A_str renovatePath] s0;
          err = os_WriteFile E (trace s) renovatePath content;
          s = emit (WriteFile_call renovatePath content) s
      in case err of
           Some e \<Rightarrow> (s, Some (''error writing renovate.json: '' @ e))
         | None \<Rightarrow> add_file E gpgKeyID tempDir (g_Log ''renovate.json written successfully'' [] s))"

text \<open>Lines 169-177: create and check out the branch.\<close>

definition create_branch :: "env \<Rightarrow> string \<Rightarrow> string \<Rightarrow> string \<Rightarrow> state \<Rightarrow> state \<times> string option" where
  "create_branch E content gpgKeyID tempDir s0 =
     (let s = g_Log ''Creating and checking out branch: %s'' [A_str branchName] s0;
          ((output, err), s) = git E [''checkout'', ''-b'', branchName] tempDir s
      in case err of
           Some e \<Rightarrow> (s, Some (''error creating branch: '' @ e @ '', output: '' @ output))
         | None \<Rightarrow> write_file E content gpgKeyID tempDir
                     (g_Log ''Branch created and checked out successfully'' [] s))"

text \<open>Lines 158-167: clone into the workspace (the clone runs without \<open>cmd.Dir\<close>).\<close>

definition clone_repository :: "env \<Rightarrow> repository \<Rightarrow> string \<Rightarrow> string \<Rightarrow> string \<Rightarrow> state \<Rightarrow> state \<times> string option" where
  "clone_repository E repo content gpgKeyID tempDir s0 =
     (let s = g_Log ''Created temporary directory: %s'' [A_str tempDir] s0;
          cloneURL = ''git@github.com:'' @ Owner_Login repo @ ''/'' @ Name repo @ ''.git'';
          s = g_Log ''Cloning repository: %s'' [A_str cloneURL] s;
          ((output, err), s) = git E [''clone'', cloneURL, tempDir] [] s
      in case err of
           Some e \<Rightarrow> (s, Some (''error cloning repository: '' @ e @ '', output: '' @ output))
         | None \<Rightarrow> create_branch E content gpgKeyID tempDir
                     (g_Log ''Repository cloned successfully'' [] s))"

text \<open>
  Line 157, \<open>defer os.RemoveAll(tempDir)\<close>: the call that runs when the function
  returns. The workspace is gone when the removal succeeds; the error of a removal that
  fails is discarded by the program, and the workspace is then still there.
\<close>

definition deferred_RemoveAll :: "env \<Rightarrow> string \<Rightarrow> state \<Rightarrow> state" where
  "deferred_RemoveAll E tempDir s0 =
     (let err = os_RemoveAll E (trace s0) tempDir;
          s = emit (RemoveAll_call tempDir) s0
      in case err of
           None \<Rightarrow> s\<lparr>dirs := dirs s - {tempDir}\<rparr>
         | Some e \<Rightarrow> s)"

text \<open>
  The whole function. \<open>os.MkdirTemp\<close> creates the workspace when it succeeds; the
  deferred removal runs after the result of the body is fixed, on every return path that
  follows it.
\<close>

definition createSignedCommit :: "env \<Rightarrow> state \<Rightarrow> repository \<Rightarrow> string \<Rightarrow> string \<Rightarrow> state \<times> string option" where
  "createSignedCommit E s0 repo content gpgKeyID =
     (let s = g_Log ''Starting to create signed commit for repository: %s'' [A_str (FullName repo)] s0;
          (tempDir, err) = os_MkdirTemp E (trace s) [] ''github-renovate-updater-*'';
          s = emit (MkdirTemp_call [] ''github-renovate-updater-*'') s
      in case err of
           Some e \<Rightarrow> (s, Some (''error creating temp directory: '' @ e))
         | None \<Rightarrow>
             (let s = s\<lparr>dirs := insert tempDir (dirs s)\<rparr>;
                  (s, result) = clone_repository E repo content gpgKeyID tempDir s;
                  s = deferred_RemoveAll E tempDir s
              in (s, result)))"

section \<open>CheckAndUpdateRenovateConfig (lines 232-295)\<close>

text \<open>
  A Go function returning \<open>error\<close> ends in one of three ways: \<open>nil\<close>, an error value
  (its message), or a run-time panic (here: a method of a \<open>nil\<close> content that
  dereferences it).
\<close>

datatype outcome = Success | Failure string | Panic

text \<open>Lines 272-294: resolve the default branch and open the pull request.\<close>

definition open_pull_request :: "env \<Rightarrow> repository \<Rightarrow> state \<Rightarrow> state \<times> outcome" where
  "open_pull_request E repo s0 =
     (let s = g_Log ''Getting default branch name'' [] s0;
          (repoInfo, err) = Repositories_Get E (trace s) (Owner_Login repo) (Name repo);
          s = emit (Get_call (Owner_Login repo) (Name repo)) s
      in case err of
           Some e \<Rightarrow> (s, Failure (''error getting repository info: '' @ e))
         | None \<Rightarrow>
             (let defaultBranch = DefaultBranch repoInfo;
                  s = g_Log ''Default branch is: %s'' [A_str defaultBranch] s;
                  s = g_Log ''Creating pull request'' [] s;
                  pr = \<lparr>Title = ''@JiraIssue-xx | Update renovate.json to use MyOtherOrg'',
                        Body = ''This PR updates the renovate.json configuration to use the MyOtherOrg organization instead of MyOrg. (changes `github>MyOrg` to `github>MyOtherOrg`)'',
                        Head = ''update-renovate-config'',
                        Base = defaultBranch\<rparr>;
                  err = PullRequests_Create E (trace s) (Owner_Login repo) (Name repo) pr;
                  s = emit (Create_call (Owner_Login repo) (Name repo) pr) s
              in case err of
                   Some e \<Rightarrow> (s, Failure (''error creating PR: '' @ e))
                 | None \<Rightarrow> (g_Log ''Pull request created successfully'' [] s, Success)))"

text \<open>Lines 260-270: the dry-run gate, then the commit.\<close>

definition publish :: "env \<Rightarrow> repository \<Rightarrow> bool \<Rightarrow> string \<Rightarrow> string \<Rightarrow> state \<Rightarrow> state \<times> outcome" where
  "publish E repo dryRun gpgKeyID new s0 =
     (if dryRun then
        (g_Log ''[DRY RUN] Would update renovate.json in %s'' [A_str (FullName repo)] s0, Success)
      else
        (let s = g_Log ''Creating signed commit'' [] s0;
             (s, err) = createSignedCommit E s repo new gpgKeyID
         in case err of
              Some e \<Rightarrow> (s, Failure (''error creating signed commit: '' @ e))
            | None \<Rightarrow> open_pull_request E repo (g_Log ''Signed commit created successfully'' [] s)))"

text \<open>A word between single quotes, as two log lines print the marker.\<close>

definition quoted :: "string \<Rightarrow> string" where
  "quoted w = CHR 0x27 # w @ [CHR 0x27]"

definition CheckAndUpdateRenovateConfig :: "env \<Rightarrow> state \<Rightarrow> repository \<Rightarrow> bool \<Rightarrow> string \<Rightarrow> state \<times> outcome" where
  "CheckAndUpdateRenovateConfig E s0 repo dryRun gpgKeyID =
     (let s = g_Log ''Starting to check and update renovate config for repository: %s'' [A_str (FullName repo)] s0;
          s = g_Log ''Getting renovate.json content'' [] s;
          (content, resp, err) =
             Repositories_GetContents E (trace s) (Owner_Login repo) (Name repo) ''renovate.json'';
          s = emit (GetContents_call (Owner_Login repo) (Name repo) ''renovate.json'') s
      in case err of
           Some e \<Rightarrow> (s, Failure (''error getting renovate.json content: '' @ e))
         | None \<Rightarrow>
             (let s = g_Log ''Successfully retrieved renovate.json content'' [] s
              in case content of
                   None \<Rightarrow> (s, Panic)
                 | Some c \<Rightarrow>
                     (case GetContent c of
                        Inl e \<Rightarrow> (s, Failure (''error decoding content: '' @ e))
                      | Inr contentStr \<Rightarrow>
                          (let s = g_Log ''Content decoded successfully'' [] s
                           in if \<not> strings_Contains contentStr marker then
                                (g_Log (''No need to update - content does not contain '' @ quoted marker) [] s, Success)
                              else
                                (let s = g_Log (''Content contains '' @ quoted marker @ '' - proceeding with update'') [] s;
                                     new = newContent contentStr;
                                     s = g_Log ''Content updated successfully'' [] s
                                 in publish E repo dryRun gpgKeyID new s)))))"

section \<open>FindReposWithRenovate (lines 58-147)\<close>

text \<open>Line 104: the candidate paths, in the order they are tried.\<close>

definition paths :: "string list" where
  "paths = [''renovate.json'', ''.github/renovate.json'']"

text \<open>Lines 133-135: the diagnostic for a failed check whose message does not mention 404.\<close>

definition log_check_error :: "string \<Rightarrow> repository \<Rightarrow> string \<Rightarrow> state \<Rightarrow> state" where
  "log_check_error path repo e s =
     (if \<not> strings_Contains e ''404'' then
        g_Log ''Error checking %s in %s: %v'' [A_str path, A_str (FullName repo), A_str e] s
      else s)"

text \<open>
  Lines 106-135: the body of the loop over the candidate paths, for one path. The flag
  of the result says whether the repository was found (the source appends it and breaks
  out of the loop) or the loop goes on with the next path.
\<close>

definition check_path :: "env \<Rightarrow> string \<Rightarrow> repository \<Rightarrow> string \<Rightarrow> state \<Rightarrow> state \<times> bool" where
  "check_path E org repo path s0 =
     (let (content, resp, err) = Repositories_GetContents E (trace s0) org (Name repo) path;
          s = emit (GetContents_call org (Name repo) path) s0
      in case err of
           None \<Rightarrow>
             (g_Log ''Found renovate.json in %s at %s'' [A_str (FullName repo), A_str path] s, True)
         | Some e \<Rightarrow>
             (case resp of
                None \<Rightarrow> (log_check_error path repo e s, False)
              | Some r \<Rightarrow>
                  if StatusCode r = 404 then (s, False)
                  else if Rate_Remaining r = 0 \<and> 0 < Rate_Reset r - time_Now E (trace s) then
                    (let waitTime = Rate_Reset r - time_Now E (trace s);
                         s = g_Log ''Rate limit reached while checking files. Waiting %v until reset at %v''
                               [A_duration waitTime, A_time (Rate_Reset r)] s;
                         s = emit (Sleep waitTime) s;
                         (content, resp, err) = Repositories_GetContents E (trace s) org (Name repo) path;
                         s = emit (GetContents_call org (Name repo) path) s
                     in case err of
                          None \<Rightarrow>
                            (g_Log ''Found renovate.json in %s at %s'' [A_str (FullName repo), A_str path] s, True)
                        | Some e \<Rightarrow> (log_check_error path repo e s, False))
                  else (log_check_error path repo e s, False)))"

text \<open>Lines 105-136: the loop over the candidate paths of one repository.\<close>

fun check_paths :: "env \<Rightarrow> string \<Rightarrow> repository \<Rightarrow> string list \<Rightarrow> state \<times> repository list
    \<Rightarrow> state \<times> repository list" where
  "check_paths E org repo [] (s, allRepos) = (s, allRepos)"
| "check_paths E org repo (path # rest) (s, allRepos) =
     (case check_path E org repo path s of
        (s', True) \<Rightarrow> (s', allRepos @ [repo])
      | (s', False) \<Rightarrow> check_paths E org repo rest (s', allRepos))"

text \<open>Lines 102-137: the loop over the repositories of one page.\<close>

fun check_repos :: "env \<Rightarrow> string \<Rightarrow> repository list \<Rightarrow> state \<times> repository list
    \<Rightarrow> state \<times> repository list" where
  "check_repos E org [] sa = sa"
| "check_repos E org (repo # repos) sa = check_repos E org repos (check_paths E org repo paths sa)"

text \<open>
  What the function returns besides a list: the error of the page request, or a panic
  on \<open>resp.NextPage\<close> when the response is \<open>nil\<close>.
\<close>

datatype error = Error string | NilPointerDereference

text \<open>Lines 71-78: the diagnostics of a failed page request.\<close>

definition log_list_error :: "response option \<Rightarrow> string \<Rightarrow> state \<Rightarrow> state" where
  "log_list_error resp e s0 =
     (let s = g_Log ''Error listing repositories: %v'' [A_str e] s0
      in case resp of
           None \<Rightarrow> s
         | Some r \<Rightarrow> g_Log ''Response headers: %+v'' [A_header (Header r)]
                      (g_Log ''Response status: %s'' [A_str (Status r)] s))"

text \<open>
  Lines 70-142: the body of the page loop \<open>for { ... }\<close>, for one iteration. Either
  the function returns (with the error of the request, with a panic, or with the list
  after the last page), or the loop goes round again: with the same cursor and the same
  list after a rate-limit wait, with the next cursor after the repositories of the page
  have been checked.
\<close>

datatype iteration =
    Return "state \<times> (error + repository list)"
  | Continue int state "repository list"

definition page_step :: "env \<Rightarrow> string \<Rightarrow> int \<Rightarrow> state \<Rightarrow> repository list \<Rightarrow> iteration" where
  "page_step E org page s0 allRepos =
     (let (repos, resp, err) = Repositories_ListByOrg E (trace s0) org page;
          s = emit (ListByOrg_call org page) s0
      in case err of
           Some e \<Rightarrow> Return (log_list_error resp e s, Inl (Error e))
         | None \<Rightarrow>
            (let s = g_Log ''Found %d repositories in org (page %d)''
                       [A_int (int (length repos)), A_int page] s
             in case resp of
                  None \<Rightarrow>
                    Return (fst (check_repos E org repos (s, allRepos)), Inl NilPointerDereference)
                | Some r \<Rightarrow>
                    (let s = g_Log ''Rate limit: %d/%d remaining''
                               [A_int (Rate_Remaining r), A_int (Rate_Limit r)] s;
                         s = (if Rate_Remaining r < 100
                              then g_Log ''Approaching rate limit. Remaining: %d''
                                     [A_int (Rate_Remaining r)] s
                              else s)
                     in if Rate_Remaining r = 0 \<and> 0 < Rate_Reset r - time_Now E (trace s) then
                          (let waitTime = Rate_Reset r - time_Now E (trace s);
                               s = g_Log ''Rate limit reached. Waiting %v until reset at %v''
                                     [A_duration waitTime, A_time (Rate_Reset r)] s;
                               s = emit (Sleep waitTime) s
                           in Continue page s allRepos)
                        else
                          (let (s, allRepos) = check_repos E org repos (s, allRepos)
                           in if NextPage r = 0 then
                                Return (g_Log ''Total repositories with renovate.json found: %d''
                                          [A_int (int (length allRepos))] s, Inr allRepos)
                              else Continue (NextPage r) s allRepos))))"

text \<open>
  Lines 69-143: the page loop. Nothing bounds its iterations (a server may report an
  exhausted rate limit, or a next page, for ever), so the result is an option: \<open>None\<close>
  stands for a loop that never ends.
\<close>

partial_function (option) page_loop ::
    "env \<Rightarrow> string \<Rightarrow> int \<Rightarrow> state \<Rightarrow> repository list \<Rightarrow> (state \<times> (error + repository list)) option" where
  "page_loop E org page s allRepos =
     (case page_step E org page s allRepos of
        Return result \<Rightarrow> Some result
      | Continue page' s' allRepos' \<Rightarrow> page_loop E org page' s' allRepos')"

text \<open>
  The function: \<open>opts.Page\<close> starts at Go's zero value; the type \<open>"all"\<close> and the page
  size 100 of every request are constants and left out of the call event.
\<close>

definition FindReposWithRenovate :: "env \<Rightarrow> string \<Rightarrow> state \<Rightarrow> (state \<times> (error + repository list)) option" where
  "FindReposWithRenovate E org s =
     page_loop E org 0 (g_Log ''Finding repositories with renovate.json for org: %s'' [A_str org] s) []"

section \<open>main (lines 336-382)\<close>

record flags =
  orgName :: string
  repoName :: string
  dryRun :: bool
  githubToken :: string
  gpgKeyID :: string

text \<open>
  How the process ends: \<open>main\<close> returns (exit status 0), \<open>log.Fatal\<close> or \<open>log.Fatalf\<close>
  prints its message and exits with status 1, or a panic ends it with status 2.
\<close>

datatype exit = Returned | Fatal string "arg list" | Panicked

fun exit_status :: "exit \<Rightarrow> nat" where
  "exit_status Returned = 0"
| "exit_status (Fatal format v) = 1"
| "exit_status Panicked = 2"

text \<open>
  Lines 29-50, \<open>NewGitHubClient\<close>: the log directory and the log file (its name carries
  the time of the start and is left out); \<open>log.Fatalf\<close> when one of them cannot be
  created.
\<close>

definition NewGitHubClient :: "env \<Rightarrow> state \<Rightarrow> state \<times> exit option" where
  "NewGitHubClient E s0 =
     (let err = os_MkdirAll E (trace s0) ''logs'';
          s = emit (MkdirAll_call ''logs'') s0
      in case err of
           Some e \<Rightarrow> (s, Some (Fatal ''Error creating logs directory: %v'' [A_str e]))
         | None \<Rightarrow>
             (let err = os_Create E (trace s);
                  s = emit CreateLogFile_call s
              in case err of
                   Some e \<Rightarrow> (s, Some (Fatal ''Error creating log file: %v'' [A_str e]))
                 | None \<Rightarrow> (s, None)))"

text \<open>Lines 373-380: the loop over the repositories that the crawl collected.\<close>

fun process_repos :: "env \<Rightarrow> bool \<Rightarrow> string \<Rightarrow> repository list \<Rightarrow> state \<Rightarrow> state \<times> exit" where
  "process_repos E dry key [] s = (s, Returned)"
| "process_repos E dry key (repo # repos) s =
     (case CheckAndUpdateRenovateConfig E
             (g_Log ''Processing repository: %s'' [A_str (FullName repo)] s) repo dry key of
        (s', Success) \<Rightarrow> process_repos E dry key repos s'
      | (s', Failure e) \<Rightarrow>
          process_repos E dry key repos
            (g_Log ''Error processing repository %s: %v'' [A_str (FullName repo), A_str e] s')
      | (s', Panic) \<Rightarrow> (s', Panicked))"

text \<open>Lines 352-363: a single repository.\<close>

definition process_single :: "env \<Rightarrow> flags \<Rightarrow> state \<Rightarrow> state \<times> exit" where
  "process_single E f s0 =
     (let (repo, err) = Repositories_Get E (trace s0) (orgName f) (repoName f);
          s = emit (Get_call (orgName f) (repoName f)) s0
      in case err of
           Some e \<Rightarrow> (s, Fatal ''Error getting repository %s: %v'' [A_str (repoName f), A_str e])
         | None \<Rightarrow>
             (case CheckAndUpdateRenovateConfig E
                     (g_Log ''Processing single repository: %s'' [A_str (FullName repo)] s)
                     repo (dryRun f) (gpgKeyID f) of
                (s', Success) \<Rightarrow> (s', Returned)
              | (s', Failure e) \<Rightarrow>
                  (s', Fatal ''Error processing repository %s: %v'' [A_str (FullName repo), A_str e])
              | (s', Panic) \<Rightarrow> (s', Panicked)))"

text \<open>Lines 364-381: the whole organization.\<close>

definition process_org :: "env \<Rightarrow> flags \<Rightarrow> state \<Rightarrow> (state \<times> exit) option" where
  "process_org E f s0 =
     (case FindReposWithRenovate E (orgName f) s0 of
        None \<Rightarrow> None
      | Some (s, Inl (Error e)) \<Rightarrow> Some (s, Fatal ''Error finding repositories: %v'' [A_str e])
      | Some (s, Inl NilPointerDereference) \<Rightarrow> Some (s, Panicked)
      | Some (s, Inr repos) \<Rightarrow>
          Some (process_repos E (dryRun f) (gpgKeyID f) repos
                  (g_Log ''Found %d repositories with renovate.json'' [A_int (int (length repos))] s)))"

definition main :: "env \<Rightarrow> flags \<Rightarrow> state \<Rightarrow> (state \<times> exit) option" where
  "main E f s0 =
     (if githubToken f = [] then
        Some (s0, Fatal ''GitHub token is required. Please provide it using the -token flag'' [])
      else
        (case NewGitHubClient E s0 of
           (s, Some x) \<Rightarrow> Some (s, x)
         | (s, None) \<Rightarrow>
             if repoName f \<noteq> [] then Some (process_single E f s) else process_org E f s))"

section \<open>Specification vocabulary for traces\<close>

text \<open>The events that a call added: those of the final trace after the initial one.\<close>

definition since :: "state \<Rightarrow> state \<Rightarrow> event list" where
  "since s s' = drop (length (trace s)) (trace s')"

text \<open>
  Classes of events: log lines; what only \<open>createSignedCommit\<close> does (workspace, git
  commands, file write, removal); the pull-request request; the metadata request.
\<close>

fun is_log :: "event \<Rightarrow> bool" where
  "is_log (Log format v) = True"
| "is_log e = False"

fun is_commit_event :: "event \<Rightarrow> bool" where
  "is_commit_event (MkdirTemp_call d p) = True"
| "is_commit_event (Exec args d) = True"
| "is_commit_event (WriteFile_call p c) = True"
| "is_commit_event (RemoveAll_call d) = True"
| "is_commit_event e = False"

fun is_pull_request_event :: "event \<Rightarrow> bool" where
  "is_pull_request_event (Create_call owner name pr) = True"
| "is_pull_request_event e = False"

fun is_metadata_event :: "event \<Rightarrow> bool" where
  "is_metadata_event (Get_call owner name) = True"
| "is_metadata_event e = False"

text \<open>The content requests of a trace (owner, repository, path) and its page requests.\<close>

fun contents_call :: "event \<Rightarrow> (string \<times> string \<times> string) list" where
  "contents_call (GetContents_call owner name path) = [(owner, name, path)]"
| "contents_call e = []"

definition contents_calls :: "event list \<Rightarrow> (string \<times> string \<times> string) list" where
  "contents_calls evs = concat (map contents_call evs)"

fun list_call :: "event \<Rightarrow> (string \<times> int) list" where
  "list_call (ListByOrg_call org page) = [(org, page)]"
| "list_call e = []"

definition list_calls :: "event list \<Rightarrow> (string \<times> int) list" where
  "list_calls evs = concat (map list_call evs)"

text \<open>
  The git commands among the events \<open>evs\<close> (which follow the trace \<open>pre\<close>) that failed:
  their arguments, combined output and error.
\<close>

fun exec_failure :: "env \<Rightarrow> event list \<Rightarrow> event \<Rightarrow> (string list \<times> string \<times> string) list" where
  "exec_failure E pre (Exec args dir) =
     (case CombinedOutput E pre args dir of
        (output, Some e) \<Rightarrow> [(args, output, e)]
      | (output, None) \<Rightarrow> [])"
| "exec_failure E pre e = []"

fun exec_failures :: "env \<Rightarrow> event list \<Rightarrow> event list \<Rightarrow> (string list \<times> string \<times> string) list" where
  "exec_failures E pre [] = []"
| "exec_failures E pre (ev # evs) = exec_failure E pre ev @ exec_failures E (pre @ [ev]) evs"

text \<open>
  The file writes among the events \<open>evs\<close> that failed (path and error); the git commands
  of a trace (arguments and working directory) and its file writes (path and content).
\<close>

fun write_failure :: "env \<Rightarrow> event list \<Rightarrow> event \<Rightarrow> (string \<times> string) list" where
  "write_failure E pre (WriteFile_call path content) =
     (case os_WriteFile E pre path content of
        Some e \<Rightarrow> [(path, e)]
      | None \<Rightarrow> [])"
| "write_failure E pre e = []"

fun write_failures :: "env \<Rightarrow> event list \<Rightarrow> event list \<Rightarrow> (string \<times> string) list" where
  "write_failures E pre [] = []"
| "write_failures E pre (ev # evs) = write_failure E pre ev @ write_failures E (pre @ [ev]) evs"

fun exec_call :: "event \<Rightarrow> (string list \<times> string) list" where
  "exec_call (Exec args dir) = [(args, dir)]"
| "exec_call e = []"

definition exec_calls :: "event list \<Rightarrow> (string list \<times> string) list" where
  "exec_calls evs = concat (map exec_call evs)"

fun write_call :: "event \<Rightarrow> (string \<times> string) list" where
  "write_call (WriteFile_call path content) = [(path, content)]"
| "write_call e = []"

definition write_calls :: "event list \<Rightarrow> (string \<times> string) list" where
  "write_calls evs = concat (map write_call evs)"

text \<open>
  Written from the specification (4.5, steps 2 to 8): the git commands of a call of the
  commit publisher in which every step succeeds, in the workspace \<open>tempDir\<close>. Clone over
  SSH, create the branch, stage the file, configure the signing key if one is given,
  commit (with the sign flag if a key is given), push the branch.
\<close>

definition expected_commands :: "repository \<Rightarrow> string \<Rightarrow> string \<Rightarrow> (string list \<times> string) list" where
  "expected_commands repo key tempDir =
     [([''clone'', ''git@github.com:'' @ Owner_Login repo @ ''/'' @ Name repo @ ''.git'', tempDir], []),
      ([''checkout'', ''-b'', ''update-renovate-config''], tempDir),
      ([''add'', ''renovate.json''], tempDir)]
     @ (if key \<noteq> [] then [([''config'', ''user.signingkey'', key], tempDir)] else [])
     @ [([''commit'', ''-m'', ''Update renovate.json to use MyOtherOrg'']
           @ (if key \<noteq> [] then [''-S''] else []), tempDir),
        ([''push'', ''origin'', ''update-renovate-config''], tempDir)]"

text \<open>The words that start the error message of each git step, by the git subcommand.\<close>

definition step_label :: "string list \<Rightarrow> string" where
  "step_label args =
     (if args = [] then []
      else if hd args = ''clone'' then ''error cloning repository: ''
      else if hd args = ''checkout'' then ''error creating branch: ''
      else if hd args = ''add'' then ''error adding file: ''
      else if hd args = ''config'' then ''error configuring signing key: ''
      else if hd args = ''commit'' then ''error creating commit: ''
      else if hd args = ''push'' then ''error pushing branch: ''
      else [])"

text \<open>
  How the steps that follow the creation of the workspace end, over their events \<open>evs\<close>.
  Either nothing failed and there is no error. Or exactly one git command failed, no
  write did, the command is the last event, and the error is the label of the step, the
  error of the command and its combined output. Or the one file write failed, no git
  command did, the write is the last event, and the error is that of the write.
\<close>

definition reported :: "env \<Rightarrow> event list \<Rightarrow> event list \<Rightarrow> string option \<Rightarrow> bool" where
  "reported E pre evs r =
     ((r = None \<and> exec_failures E pre evs = [] \<and> write_failures E pre evs = [])
      \<or> (\<exists>args dir output e.
            r = Some (step_label args @ e @ '', output: '' @ output)
            \<and> exec_failures E pre evs = [(args, output, e)] \<and> write_failures E pre evs = []
            \<and> evs \<noteq> [] \<and> last evs = Exec args dir)
      \<or> (\<exists>path content e.
            r = Some (''error writing renovate.json: '' @ e)
            \<and> exec_failures E pre evs = [] \<and> write_failures E pre evs = [(path, e)]
            \<and> evs \<noteq> [] \<and> last evs = WriteFile_call path content))"

text \<open>
  What a run of steps does, from \<open>s\<close>, when \<open>cmds\<close> are the git commands and \<open>writes\<close> the
  file writes that are still to come: it leaves the workspaces alone, it runs a prefix of
  the commands and of the writes, all of them when it ends without an error, and it
  reports as above.
\<close>

definition steps_ok ::
    "env \<Rightarrow> state \<Rightarrow> (string list \<times> string) list \<Rightarrow> (string \<times> string) list
       \<Rightarrow> state \<times> string option \<Rightarrow> bool" where
  "steps_ok E s cmds writes sr =
     (case sr of (s', r) \<Rightarrow>
        dirs s' = dirs s
        \<and> (\<exists>evs. trace s' = trace s @ evs
              \<and> list_all (\<lambda>e. is_log e \<or> is_commit_event e) evs
              \<and> prefix (exec_calls evs) cmds \<and> prefix (write_calls evs) writes
              \<and> (r = None \<longrightarrow> exec_calls evs = cmds \<and> write_calls evs = writes)
              \<and> reported E (trace s) evs r))"

text \<open>
  The trace on which \<open>CheckAndUpdateRenovateConfig\<close> asks for the file (line 237): the
  trace of its start and its first two log lines.
\<close>

definition before_fetch :: "state \<Rightarrow> repository \<Rightarrow> event list" where
  "before_fetch s repo =
     trace s @ [Log ''Starting to check and update renovate config for repository: %s'' [A_str (FullName repo)],
                Log ''Getting renovate.json content'' []]"

text \<open>
  The trace of \<open>s'\<close> is the trace of \<open>s\<close> followed by events that all satisfy \<open>P\<close>;
  and the events that follow the fetch in a run of the update workflow: log lines, the
  events of the commit, the metadata request and the pull-request request.
\<close>

definition grows :: "(event \<Rightarrow> bool) \<Rightarrow> state \<Rightarrow> state \<Rightarrow> bool" where
  "grows P s s' = (\<exists>evs. trace s' = trace s @ evs \<and> list_all P evs)"

definition later_event :: "event \<Rightarrow> bool" where
  "later_event e = (is_log e \<or> is_commit_event e \<or> is_metadata_event e \<or> is_pull_request_event e)"

text \<open>
  The content checks among the events \<open>evs\<close> (which follow the trace \<open>pre\<close>): the path of
  each and whether it succeeded (\<open>err == nil\<close>). And the events of a probe: log lines,
  content requests and sleeps.
\<close>

fun content_check :: "env \<Rightarrow> event list \<Rightarrow> event \<Rightarrow> (string \<times> bool) list" where
  "content_check E pre (GetContents_call owner name path) =
     [(path, snd (snd (Repositories_GetContents E pre owner name path)) = None)]"
| "content_check E pre e = []"

fun content_checks :: "env \<Rightarrow> event list \<Rightarrow> event list \<Rightarrow> (string \<times> bool) list" where
  "content_checks E pre [] = []"
| "content_checks E pre (ev # evs) = content_check E pre ev @ content_checks E (pre @ [ev]) evs"

text \<open>
  Whether a check of \<open>path\<close> made on the trace \<open>pre\<close> is one that the probe repeats: it
  fails with a response other than 404 that reports no remaining calls and a reset time
  ahead of the clock.
\<close>

definition retry_due :: "env \<Rightarrow> event list \<Rightarrow> string \<Rightarrow> repository \<Rightarrow> string \<Rightarrow> bool" where
  "retry_due E pre org repo path =
     (case Repositories_GetContents E pre org (Name repo) path of
        (content, Some r, Some e) \<Rightarrow>
          StatusCode r \<noteq> 404 \<and> Rate_Remaining r = 0
          \<and> 0 < Rate_Reset r - time_Now E (pre @ [GetContents_call org (Name repo) path])
      | (content, resp, err) \<Rightarrow> False)"

fun probe_event :: "event \<Rightarrow> bool" where
  "probe_event (Log format v) = True"
| "probe_event (GetContents_call owner name path) = True"
| "probe_event (Sleep d) = True"
| "probe_event e = False"

text \<open>
  The answer to a page request made on the trace \<open>pre\<close>. The trace on which the clock is
  read after the answer; whether the loop suspends on the answer (rate limit exhausted,
  reset time ahead); the repositories of an answer that is kept (no error, no
  suspension); and the cursor of the request that follows: the same cursor after a
  suspension, the next-page cursor of the answer otherwise.
\<close>

definition after_reply :: "event list \<Rightarrow> string \<Rightarrow> int \<Rightarrow> repository list \<Rightarrow> response \<Rightarrow> event list" where
  "after_reply pre org page repos r =
     pre @ [ListByOrg_call org page,
            Log ''Found %d repositories in org (page %d)'' [A_int (int (length repos)), A_int page],
            Log ''Rate limit: %d/%d remaining'' [A_int (Rate_Remaining r), A_int (Rate_Limit r)]]
         @ (if Rate_Remaining r < 100
            then [Log ''Approaching rate limit. Remaining: %d'' [A_int (Rate_Remaining r)]]
            else [])"

definition suspends :: "env \<Rightarrow> event list \<Rightarrow> string \<Rightarrow> int \<Rightarrow> bool" where
  "suspends E pre org page =
     (case Repositories_ListByOrg E pre org page of
        (repos, Some r, None) \<Rightarrow>
          Rate_Remaining r = 0 \<and> 0 < Rate_Reset r - time_Now E (after_reply pre org page repos r)
      | (repos, resp, err) \<Rightarrow> False)"

definition kept_repos :: "env \<Rightarrow> event list \<Rightarrow> string \<Rightarrow> int \<Rightarrow> repository list" where
  "kept_repos E pre org page =
     (case Repositories_ListByOrg E pre org page of
        (repos, resp, None) \<Rightarrow> if suspends E pre org page then [] else repos
      | (repos, resp, Some e) \<Rightarrow> [])"

definition next_cursor :: "env \<Rightarrow> event list \<Rightarrow> string \<Rightarrow> int \<Rightarrow> int" where
  "next_cursor E pre org page =
     (case Repositories_ListByOrg E pre org page of
        (repos, Some r, None) \<Rightarrow> if suspends E pre org page then page else NextPage r
      | (repos, resp, err) \<Rightarrow> page)"



text \<open>
  One iteration of the page loop, from \<open>s\<close> with the list \<open>allRepos\<close> to \<open>s'\<close> with the list
  \<open>allRepos'\<close>: it makes the page request and then no other page request, it adds to the
  list only repositories of the answer if it is kept, in their order, and it checks the
  root path of every repository of a kept answer.
\<close>

definition iteration_ok ::
    "env \<Rightarrow> string \<Rightarrow> int \<Rightarrow> state \<Rightarrow> repository list \<Rightarrow> state \<Rightarrow> repository list \<Rightarrow> bool" where
  "iteration_ok E org page s allRepos s' allRepos' =
     (\<exists>evs. trace s' = trace s @ ListByOrg_call org page # evs
        \<and> list_calls evs = []
        \<and> (\<exists>found. allRepos' = allRepos @ found \<and> subseq found (kept_repos E (trace s) org page))
        \<and> (\<forall>repo \<in> set (kept_repos E (trace s) org page).
              (org, Name repo, ''renovate.json'') \<in> set (contents_calls evs)))"


text \<open>
  A sequence of answers to page requests that are pages: none is an error or lacks the
  response, none reports an exhausted rate limit, and the last one, and only the last
  one, reports the next-page cursor 0. And the cursors of the requests that such a
  sequence leads to, from the cursor \<open>page\<close> of the first request.
\<close>

fun paged :: "(repository list \<times> response option \<times> string option) list \<Rightarrow> bool" where
  "paged [] = False"
| "paged ((repos, resp, err) # rest) =
     (err = None \<and>
      (case resp of
         None \<Rightarrow> False
       | Some r \<Rightarrow> Rate_Remaining r \<noteq> 0 \<and> (if NextPage r = 0 then rest = [] else paged rest)))"

fun page_cursors :: "int \<Rightarrow> (repository list \<times> response option \<times> string option) list \<Rightarrow> int list" where
  "page_cursors page [] = []"
| "page_cursors page ((repos, resp, err) # rest) =
     page # page_cursors (case resp of Some r \<Rightarrow> NextPage r | None \<Rightarrow> page) rest"

section \<open>Concrete worlds\<close>

text \<open>
  The organization of the end-to-end scenario of the specification: \<open>A\<close> has no
  configuration file, \<open>B\<close> has one at the root that holds the marker, \<open>C\<close> has one at
  the nested path without the marker; and a fourth repository \<open>D\<close> with one at the root
  without the marker. A request for a file that is not there is answered with 404, every
  other request succeeds, and the rate limit is far from exhausted.
\<close>

definition repoA :: repository where
  "repoA = \<lparr>Owner_Login = ''Acme'', Name = ''A'', FullName = ''Acme/A'', DefaultBranch = ''main''\<rparr>"

definition repoB :: repository where
  "repoB = \<lparr>Owner_Login = ''Acme'', Name = ''B'', FullName = ''Acme/B'', DefaultBranch = ''main''\<rparr>"

definition repoC :: repository where
  "repoC = \<lparr>Owner_Login = ''Acme'', Name = ''C'', FullName = ''Acme/C'', DefaultBranch = ''trunk''\<rparr>"

definition repoD :: repository where
  "repoD = \<lparr>Owner_Login = ''Acme'', Name = ''D'', FullName = ''Acme/D'', DefaultBranch = ''main''\<rparr>"

definition ok_response :: response where
  "ok_response = \<lparr>Status = ''200 OK'', StatusCode = 200, Header = [], Rate_Limit = 5000,
     Rate_Remaining = 4000, Rate_Reset = 3600, NextPage = 0\<rparr>"

definition not_found_response :: response where
  "not_found_response = ok_response\<lparr>Status := ''404 Not Found'', StatusCode := 404\<rparr>"

definition acme :: env where
  "acme = \<lparr>
     Repositories_ListByOrg = (\<lambda>tr org page. ([repoA, repoB, repoC, repoD], Some ok_response, None)),
     Repositories_GetContents = (\<lambda>tr org name path.
        if name = ''B'' \<and> path = ''renovate.json''
          then (Some \<lparr>GetContent = Inr ''extends github>MyOrg/lib''\<rparr>, Some ok_response, None)
        else if (name = ''C'' \<and> path = ''.github/renovate.json'') \<or> (name = ''D'' \<and> path = ''renovate.json'')
          then (Some \<lparr>GetContent = Inr ''extends config:base''\<rparr>, Some ok_response, None)
        else (None, Some not_found_response, Some ''404 Not Found'')),
     Repositories_Get = (\<lambda>tr org name.
        (if name = ''D'' then repoD else if name = ''C'' then repoC
         else if name = ''B'' then repoB else repoA, None)),
     PullRequests_Create = (\<lambda>tr org name pr. None),
     time_Now = (\<lambda>tr. 0),
     os_MkdirAll = (\<lambda>tr d. None),
     os_Create = (\<lambda>tr. None),
     os_MkdirTemp = (\<lambda>tr d pat. (''/tmp/github-renovate-updater-1'', None)),
     os_WriteFile = (\<lambda>tr p c. None),
     os_RemoveAll = (\<lambda>tr d. None),
     CombinedOutput = (\<lambda>tr args d. (''git says ok'', None))\<rparr>"

definition start :: state where
  "start = \<lparr>trace = [], dirs = {}\<rparr>"

text \<open>The same world with a full disk, and with a remote that refuses the push.\<close>

definition acme_disk_full :: env where
  "acme_disk_full = acme\<lparr>os_WriteFile := (\<lambda>tr p c. Some ''no space left on device'')\<rparr>"

definition acme_push_refused :: env where
  "acme_push_refused = acme\<lparr>CombinedOutput := (\<lambda>tr args d.
      if hd args = ''push'' then (''remote: permission denied'', Some ''exit status 1'')
      else (''git says ok'', None))\<rparr>"

text \<open>
  The same world with a rate limit that is exhausted until the program has slept: before
  a sleep every content request is refused with 403 and no remaining calls, after it the
  requests are answered as before.
\<close>

definition limited_response :: response where
  "limited_response = \<lparr>Status = ''403 Forbidden'', StatusCode = 403, Header = [], Rate_Limit = 5000,
     Rate_Remaining = 0, Rate_Reset = 3600, NextPage = 0\<rparr>"

fun is_sleep :: "event \<Rightarrow> bool" where
  "is_sleep (Sleep d) = True"
| "is_sleep e = False"

definition acme_limited :: env where
  "acme_limited = acme\<lparr>Repositories_GetContents := (\<lambda>tr org name path.
      if list_ex is_sleep tr then Repositories_GetContents acme tr org name path
      else (None, Some limited_response, Some ''403 API rate limit exceeded''))\<rparr>"




text \<open>
  A world in which the organization has two pages: the request with the cursor 0 is
  answered with the first page and the next-page cursor 2, every other request with the
  second and last page.
\<close>

definition first_page :: "repository list \<times> response option \<times> string option" where
  "first_page = ([repoA, repoB], Some (ok_response\<lparr>NextPage := 2\<rparr>), None)"

definition second_page :: "repository list \<times> response option \<times> string option" where
  "second_page = ([repoC, repoD], Some ok_response, None)"

definition acme_two_pages :: env where
  "acme_two_pages = acme\<lparr>Repositories_ListByOrg := (\<lambda>tr org page.
      if page = 0 then first_page else second_page)\<rparr>"

text \<open>
  The flags of a run over the whole organization and of a run for the repository \<open>C\<close>
  alone; the state of the first world after \<open>NewGitHubClient\<close>, and after its crawl.
\<close>

definition org_flags :: flags where
  "org_flags = \<lparr>orgName = ''Acme'', repoName = [], dryRun = True, githubToken = ''token'', gpgKeyID = []\<rparr>"

definition single_flags :: flags where
  "single_flags = org_flags\<lparr>repoName := ''C''\<rparr>"

definition acme_ready :: state where
  "acme_ready = \<lparr>trace = [MkdirAll_call ''logs'', CreateLogFile_call], dirs = {}\<rparr>"

definition acme_crawled :: state where
  "acme_crawled =
     \<lparr>trace = trace acme_ready @
        [Log ''Finding repositories with renovate.json for org: %s'' [A_str ''Acme''],
         ListByOrg_call ''Acme'' 0,
         Log ''Found %d repositories in org (page %d)'' [A_int 4, A_int 0],
         Log ''Rate limit: %d/%d remaining'' [A_int 4000, A_int 5000],
         GetContents_call ''Acme'' ''A'' ''renovate.json'',
         GetContents_call ''Acme'' ''A'' ''.github/renovate.json'',
         GetContents_call ''Acme'' ''B'' ''renovate.json'',
         Log ''Found renovate.json in %s at %s'' [A_str ''Acme/B'', A_str ''renovate.json''],
         GetContents_call ''Acme'' ''C'' ''renovate.json'',
         GetContents_call ''Acme'' ''C'' ''.github/renovate.json'',
         Log ''Found renovate.json in %s at %s'' [A_str ''Acme/C'', A_str ''.github/renovate.json''],
         GetContents_call ''Acme'' ''D'' ''renovate.json'',
         Log ''Found renovate.json in %s at %s'' [A_str ''Acme/D'', A_str ''renovate.json''],
         Log ''Total repositories with renovate.json found: %d'' [A_int 3]],
      dirs = {}\<rparr>"

text \<open>
  Four more variants of the first world. One in which the workspace cannot be removed.
  One in which \<open>renovate.json\<close> of \<open>B\<close> is a directory (the content request succeeds
  and delivers no file content) and \<open>C\<close> is listed before \<open>B\<close>. One in which every
  request for the root path fails with 500. And one with a busy start, as above, whose
  two pages both list \<open>B\<close>.
\<close>

definition acme_stuck :: env where
  "acme_stuck = acme\<lparr>os_RemoveAll := (\<lambda>tr d. Some ''permission denied'')\<rparr>"

definition acme_directory :: env where
  "acme_directory = acme\<lparr>
     Repositories_ListByOrg := (\<lambda>tr org page. ([repoA, repoC, repoB, repoD], Some ok_response, None)),
     Repositories_GetContents := (\<lambda>tr org name path.
        if name = ''B'' \<and> path = ''renovate.json'' then (None, Some ok_response, None)
        else Repositories_GetContents acme tr org name path)\<rparr>"

definition error_response :: response where
  "error_response = ok_response\<lparr>Status := ''500 Internal Server Error'', StatusCode := 500\<rparr>"

definition acme_error :: env where
  "acme_error = acme\<lparr>Repositories_GetContents := (\<lambda>tr org name path.
      if path = ''renovate.json'' then (None, Some error_response, Some ''500 Internal Server Error'')
      else Repositories_GetContents acme tr org name path)\<rparr>"


section \<open>The rewrite replaces every occurrence of the marker\<close>

lemma prefix_append_compat: "prefix p (q @ r) \<Longrightarrow> compat p q"
  by (auto simp: compat_def prefix_append)

lemma occurrences_skip: "no_start pat q \<Longrightarrow> occurrences (q @ r) pat = occurrences r pat"
proof (induction q)
  case Nil
  then show ?case by simp
next
  case (Cons c q)
  from Cons.prems have nc: "\<not> compat pat (c # q)" and ns: "no_start pat q" by simp_all
  have "\<not> prefix pat ((c # q) @ r)" using nc prefix_append_compat by blast
  then show ?case using Cons.IH [OF ns] by simp
qed

lemma occurrences_self:
  assumes "pat \<noteq> []" and "no_start pat (tl pat)"
  shows "occurrences (pat @ r) pat = Suc (occurrences r pat)"
proof -
  obtain c cs where p: "pat = c # cs" using assms(1) by (cases pat) auto
  have "occurrences (cs @ r) pat = occurrences r pat"
    using assms(2) p occurrences_skip by simp
  then show ?thesis using p by simp
qed

lemma ReplaceAll_at_old:
  "old \<noteq> [] \<Longrightarrow> strings_ReplaceAll (old @ u) old new = new @ strings_ReplaceAll u old new"
  by (cases old) auto

lemma prefix_ReplaceAll:
  assumes "old \<noteq> []"
  shows "all_safe old new w \<Longrightarrow> prefix w (strings_ReplaceAll t old new) \<longleftrightarrow> prefix w t"
proof (induction w arbitrary: t)
  case Nil
  then show ?case by simp
next
  case (Cons c w)
  from Cons.prems have safe: "(prefix (c # w) old \<and> prefix (c # w) new)
        \<or> (\<not> compat (c # w) old \<and> \<not> compat (c # w) new)" and rest: "all_safe old new w"
    by simp_all
  show ?case
  proof (cases t)
    case Nil
    then show ?thesis using assms by simp
  next
    case (Cons d t')
    show ?thesis
    proof (cases "prefix old t")
      case True
      then obtain u where u: "t = old @ u" by (auto simp: prefix_def)
      have ra: "strings_ReplaceAll t old new = new @ strings_ReplaceAll u old new"
        using u assms ReplaceAll_at_old by simp
      from safe show ?thesis
      proof
        assume "prefix (c # w) old \<and> prefix (c # w) new"
        then show ?thesis using ra u by (simp del: Cons_prefix_Cons)
      next
        assume nc: "\<not> compat (c # w) old \<and> \<not> compat (c # w) new"
        have "\<not> prefix (c # w) (new @ strings_ReplaceAll u old new)"
          using nc prefix_append_compat by blast
        moreover have "\<not> prefix (c # w) (old @ u)"
          using nc prefix_append_compat by blast
        ultimately show ?thesis using ra u by simp
      qed
    next
      case False
      then have "strings_ReplaceAll t old new = d # strings_ReplaceAll t' old new"
        using Cons assms by simp
      then show ?thesis using Cons.IH [OF rest, of t'] Cons by simp
    qed
  qed
qed

lemma prefix_old_ReplaceAll_Cons:
  assumes "old \<noteq> []" and "all_safe old new (tl p)"  and "p \<noteq> []"
  shows "prefix p (c # strings_ReplaceAll cs old new) \<longleftrightarrow> prefix p (c # cs)"
proof -
  obtain x xs where p: "p = x # xs" using assms(3) by (cases p) auto
  show ?thesis using prefix_ReplaceAll [OF assms(1), of new xs cs] assms(2) p by simp
qed


lemma occurrences_ReplaceAll_old:
  assumes "old \<noteq> []" and "no_start old new" and "all_safe old new (tl old)"
  shows "occurrences (strings_ReplaceAll s old new) old = 0"
  using assms
proof (induction s old new rule: strings_ReplaceAll.induct)
  case (1 old new)
  then show ?case by simp
next
  case (2 c cs old new)
  show ?case
  proof (cases "prefix old (c # cs)")
    case True
    have "occurrences (strings_ReplaceAll (drop (length old) (c # cs)) old new) old = 0"
      using "2.IH"(2) "2.prems" True by simp
    then show ?thesis
      using True "2.prems" occurrences_skip [of old new] by simp
  next
    case False
    have ih: "occurrences (strings_ReplaceAll cs old new) old = 0"
      using "2.IH"(3) "2.prems" False by simp
    have "\<not> prefix old (c # strings_ReplaceAll cs old new)"
      using prefix_old_ReplaceAll_Cons [of old new old c cs] "2.prems" False by simp
    then show ?thesis using ih False "2.prems" by simp
  qed
qed

lemma occurrences_ReplaceAll_new:
  assumes "old \<noteq> []" and "new \<noteq> []"
    and "all_safe old new (tl new)" and "no_start new (tl new)"
    and "no_start new old" and "no_start old (tl old)"
  shows "occurrences (strings_ReplaceAll s old new) new = occurrences s old + occurrences s new"
  using assms
proof (induction s old new rule: strings_ReplaceAll.induct)
  case (1 old new)
  then show ?case by simp
next
  case (2 c cs old new)
  show ?case
  proof (cases "prefix old (c # cs)")
    case True
    then obtain u where u: "c # cs = old @ u" by (auto simp: prefix_def)
    then have d: "drop (length old) (c # cs) = u" by (metis append_eq_conv_conj)
    have ih: "occurrences (strings_ReplaceAll u old new) new = occurrences u old + occurrences u new"
      using "2.IH"(2) "2.prems" True d by simp
    have ra: "strings_ReplaceAll (c # cs) old new = new @ strings_ReplaceAll u old new"
      using True "2.prems"(1) d by simp
    have l: "occurrences (new @ strings_ReplaceAll u old new) new
             = Suc (occurrences (strings_ReplaceAll u old new) new)"
      using occurrences_self "2.prems" by simp
    have r1: "occurrences (old @ u) old = Suc (occurrences u old)"
      using occurrences_self "2.prems" by simp
    have r2: "occurrences (old @ u) new = occurrences u new"
      using occurrences_skip "2.prems" by simp
    have "occurrences (strings_ReplaceAll (c # cs) old new) new
          = Suc (occurrences u old + occurrences u new)"
      using ra l ih by simp
    moreover have "occurrences (c # cs) old + occurrences (c # cs) new
          = Suc (occurrences u old + occurrences u new)"
      using r1 r2 u by simp
    ultimately show ?thesis by simp
  next
    case False
    have ih: "occurrences (strings_ReplaceAll cs old new) new = occurrences cs old + occurrences cs new"
      using "2.IH"(3) "2.prems" False by simp
    have "prefix new (c # strings_ReplaceAll cs old new) \<longleftrightarrow> prefix new (c # cs)"
      using prefix_old_ReplaceAll_Cons [of old new new c cs] "2.prems" by simp
    then show ?thesis using ih False "2.prems"(1) by simp
  qed
qed

lemma no_start_drop: "no_start pat q \<Longrightarrow> k < length q \<Longrightarrow> \<not> compat pat (drop k q)"
proof (induction q arbitrary: k)
  case Nil
  then show ?case by simp
next
  case (Cons c q)
  show ?case
  proof (cases k)
    case 0
    then show ?thesis using Cons.prems(1) by simp
  next
    case (Suc k')
    then have "k' < length q" using Cons.prems(2) by simp
    moreover have "no_start pat q" using Cons.prems(1) by simp
    ultimately have "\<not> compat pat (drop k' q)" by (rule Cons.IH [rotated])
    then show ?thesis using Suc by simp
  qed
qed

lemma prefix_old_across:
  assumes "old \<noteq> []" and "no_start old (tl old)" and "a \<noteq> []"
  shows "prefix old (a @ old @ b) \<longleftrightarrow> prefix old a"
proof
  assume "prefix old a"
  then show "prefix old (a @ old @ b)" by simp
next
  assume p: "prefix old (a @ old @ b)"
  show "prefix old a"
  proof (rule ccontr)
    assume n: "\<not> prefix old a"
    from p n obtain us where us: "old = a @ us" "prefix us (old @ b)"
      unfolding prefix_append by blast
    obtain x xs where a: "a = x # xs" using assms(3) by (cases a) auto
    have ne: "us \<noteq> []"
    proof
      assume "us = []"
      then have "old = a" using us(1) by simp
      then show False using n by simp
    qed
    have tl: "tl old = xs @ us" unfolding us(1) a by simp
    have k: "length xs < length (tl old)" unfolding tl using ne by simp
    have "drop (length xs) (tl old) = us" unfolding tl by simp
    then have "\<not> compat old us" using no_start_drop [OF assms(2) k] by simp
    moreover have "compat us old" using us(2) by (rule prefix_append_compat)
    ultimately show False unfolding compat_def by blast
  qed
qed

lemma ReplaceAll_across:
  assumes "old \<noteq> []" and "no_start old (tl old)"
  shows "strings_ReplaceAll (a @ old @ b) old new
         = strings_ReplaceAll a old new @ new @ strings_ReplaceAll b old new"
  using assms
proof (induction a old new rule: strings_ReplaceAll.induct)
  case (1 old new)
  then show ?case using ReplaceAll_at_old by simp
next
  case (2 c cs old new)
  have eq: "prefix old ((c # cs) @ old @ b) \<longleftrightarrow> prefix old (c # cs)"
    using prefix_old_across [of old "c # cs" b] "2.prems" by simp
  show ?case
  proof (cases "prefix old (c # cs)")
    case True
    then have len: "length old \<le> length (c # cs)" by (rule prefix_length_le)
    have ih: "strings_ReplaceAll (drop (length old) (c # cs) @ old @ b) old new
        = strings_ReplaceAll (drop (length old) (c # cs)) old new @ new @ strings_ReplaceAll b old new"
      using "2.IH"(2) "2.prems" True by simp
    have "drop (length old) ((c # cs) @ old @ b)
          = drop (length old) (c # cs) @ drop (length old - length (c # cs)) (old @ b)"
      by (rule drop_append)
    then have "drop (length old) ((c # cs) @ old @ b) = drop (length old) (c # cs) @ old @ b"
      using len by simp
    then have "strings_ReplaceAll ((c # cs) @ old @ b) old new
        = new @ strings_ReplaceAll (drop (length old) (c # cs) @ old @ b) old new"
      using eq True "2.prems"(1) by (simp del: drop_append drop_Suc_Cons)
    then show ?thesis using ih True "2.prems"(1) by simp
  next
    case False
    have ih: "strings_ReplaceAll (cs @ old @ b) old new
        = strings_ReplaceAll cs old new @ new @ strings_ReplaceAll b old new"
      using "2.IH"(3) "2.prems" False by simp
    show ?thesis using eq False ih "2.prems"(1) by simp
  qed
qed

lemma marker_facts:
  "marker \<noteq> []" "replacement \<noteq> []"
  "no_start marker replacement" "all_safe marker replacement (tl marker)"
  "all_safe marker replacement (tl replacement)" "no_start replacement (tl replacement)"
  "no_start replacement marker" "no_start marker (tl marker)"
  by (simp_all add: marker_def replacement_def compat_def)

text \<open>
  C1, as amended. The rewrite of line 257 replaces every occurrence of the marker
  \<open>github>MyOrg/\<close> by \<open>github>MyOtherOrg/\<close>: it distributes over an occurrence, no
  occurrence of the marker is left in the result, and the result has one occurrence of
  the replacement for every occurrence of the marker in the input, besides the
  occurrences of the replacement that the input already had. In particular an input with
  exactly three occurrences of the marker and none of the replacement gives a result with
  no occurrence of the marker and three of the replacement.
\<close>

theorem newContent_replaces_all:
  "newContent (a @ marker @ b) = newContent a @ replacement @ newContent b
   \<and> occurrences (newContent s) marker = 0
   \<and> occurrences (newContent s) replacement = occurrences s marker + occurrences s replacement
   \<and> (occurrences s marker = 3 \<and> occurrences s replacement = 0
        \<longrightarrow> occurrences (newContent s) marker = 0 \<and> occurrences (newContent s) replacement = 3)"
proof -
  have 1: "newContent (a @ marker @ b) = newContent a @ replacement @ newContent b"
    unfolding newContent_def
    by (rule ReplaceAll_across [OF marker_facts(1) marker_facts(8)])
  have 2: "occurrences (newContent s) marker = 0"
    unfolding newContent_def
    by (rule occurrences_ReplaceAll_old [OF marker_facts(1) marker_facts(3) marker_facts(4)])
  have 3: "occurrences (newContent s) replacement = occurrences s marker + occurrences s replacement"
    unfolding newContent_def
    by (rule occurrences_ReplaceAll_new [OF marker_facts(1) marker_facts(2) marker_facts(5)
          marker_facts(6) marker_facts(7) marker_facts(8)])
  show ?thesis using 1 2 3 by simp
qed

theorem newContent_replaces_all_witness:
  "occurrences ''github>MyOrg/a github>MyOrg/b github>MyOrg/c'' marker = 3
   \<and> occurrences ''github>MyOrg/a github>MyOrg/b github>MyOrg/c'' replacement = 0
   \<and> occurrences (newContent ''github>MyOrg/a github>MyOrg/b github>MyOrg/c'') marker = 0
   \<and> occurrences (newContent ''github>MyOrg/a github>MyOrg/b github>MyOrg/c'') replacement = 3"
proof -
  have m: "occurrences ''github>MyOrg/a github>MyOrg/b github>MyOrg/c'' marker = 3"
    by (simp add: marker_def)
  have r: "occurrences ''github>MyOrg/a github>MyOrg/b github>MyOrg/c'' replacement = 0"
    by (simp add: replacement_def)
  show ?thesis
    using newContent_replaces_all [of "[]" "[]" "''github>MyOrg/a github>MyOrg/b github>MyOrg/c''"] m r
    by simp
qed

text \<open>
  The claim as it was stated fails on an input that holds the replacement already: three
  occurrences of the marker, and four occurrences of the replacement in the result.
\<close>

theorem newContent_three_counterexample:
  "occurrences ''github>MyOtherOrg/a github>MyOrg/b github>MyOrg/c github>MyOrg/d'' marker = 3
   \<and> occurrences (newContent ''github>MyOtherOrg/a github>MyOrg/b github>MyOrg/c github>MyOrg/d'') replacement = 4
   \<and> occurrences (newContent ''github>MyOtherOrg/a github>MyOrg/b github>MyOrg/c github>MyOrg/d'') replacement \<noteq> 3"
proof -
  have r: "newContent ''github>MyOtherOrg/a github>MyOrg/b github>MyOrg/c github>MyOrg/d''
      = ''github>MyOtherOrg/a github>MyOtherOrg/b github>MyOtherOrg/c github>MyOtherOrg/d''"
    by (simp add: newContent_def marker_def replacement_def)
  have "occurrences ''github>MyOtherOrg/a github>MyOrg/b github>MyOrg/c github>MyOrg/d'' marker = 3"
    by (simp add: marker_def)
  moreover have "occurrences ''github>MyOtherOrg/a github>MyOtherOrg/b github>MyOtherOrg/c github>MyOtherOrg/d'' replacement = 4"
    by (simp add: replacement_def)
  ultimately show ?thesis unfolding r by simp
qed

section \<open>createSignedCommit cleans up and reports\<close>

lemma exec_failures_append:
  "exec_failures E pre (xs @ ys) = exec_failures E pre xs @ exec_failures E (pre @ xs) ys"
  by (induction xs arbitrary: pre) auto

lemma write_failures_append:
  "write_failures E pre (xs @ ys) = write_failures E pre xs @ write_failures E (pre @ xs) ys"
  by (induction xs arbitrary: pre) auto

lemma exec_calls_append: "exec_calls (xs @ ys) = exec_calls xs @ exec_calls ys"
  by (simp add: exec_calls_def)

lemma write_calls_append: "write_calls (xs @ ys) = write_calls xs @ write_calls ys"
  by (simp add: write_calls_def)

lemma since_append: "trace s' = trace s @ evs \<Longrightarrow> since s s' = evs"
  by (simp add: since_def)

lemma trace_emit: "trace (emit e s) = trace s @ [e]"
  by (simp add: emit_def)

lemma dirs_emit: "dirs (emit e s) = dirs s"
  by (simp add: emit_def)

lemma trace_g_Log: "trace (g_Log f v s) = trace s @ [Log f v]"
  by (simp add: g_Log_def emit_def)

lemma dirs_g_Log: "dirs (g_Log f v s) = dirs s"
  by (simp add: g_Log_def emit_def)

lemma reported_extend:
  assumes "reported E (pre @ evs1) evs r"
    and "exec_failures E pre evs1 = []" and "write_failures E pre evs1 = []"
  shows "reported E pre (evs1 @ evs) r"
proof -
  have f: "exec_failures E pre (evs1 @ evs) = exec_failures E (pre @ evs1) evs"
    using assms(2) by (simp add: exec_failures_append)
  have w: "write_failures E pre (evs1 @ evs) = write_failures E (pre @ evs1) evs"
    using assms(3) by (simp add: write_failures_append)
  from assms(1) consider
      (ok) "r = None" "exec_failures E (pre @ evs1) evs = []" "write_failures E (pre @ evs1) evs = []"
    | (git) args dir out e where "r = Some (step_label args @ e @ '', output: '' @ out)"
        "exec_failures E (pre @ evs1) evs = [(args, out, e)]"
        "write_failures E (pre @ evs1) evs = []" "evs \<noteq> []" "last evs = Exec args dir"
    | (wr) path content e where "r = Some (''error writing renovate.json: '' @ e)"
        "exec_failures E (pre @ evs1) evs = []"
        "write_failures E (pre @ evs1) evs = [(path, e)]" "evs \<noteq> []"
        "last evs = WriteFile_call path content"
    unfolding reported_def by blast
  then show ?thesis
  proof cases
    case ok
    then show ?thesis unfolding reported_def f w by simp
  next
    case git
    have "evs1 @ evs \<noteq> []" "last (evs1 @ evs) = Exec args dir" using git(4,5) by simp_all
    then have "\<exists>args dir out e. r = Some (step_label args @ e @ '', output: '' @ out)
        \<and> exec_failures E pre (evs1 @ evs) = [(args, out, e)]
        \<and> write_failures E pre (evs1 @ evs) = []
        \<and> evs1 @ evs \<noteq> [] \<and> last (evs1 @ evs) = Exec args dir"
      unfolding f w using git(1,2,3) by blast
    then show ?thesis unfolding reported_def by blast
  next
    case wr
    have "evs1 @ evs \<noteq> []" "last (evs1 @ evs) = WriteFile_call path content"
      using wr(4,5) by simp_all
    then have "\<exists>path content e. r = Some (''error writing renovate.json: '' @ e)
        \<and> exec_failures E pre (evs1 @ evs) = []
        \<and> write_failures E pre (evs1 @ evs) = [(path, e)]
        \<and> evs1 @ evs \<noteq> [] \<and> last (evs1 @ evs) = WriteFile_call path content"
      unfolding f w using wr(1,2,3) by blast
    then show ?thesis unfolding reported_def by blast
  qed
qed

lemma steps_ok_extend:
  assumes "steps_ok E s1 cmds writes sr" and "trace s1 = trace s @ evs1" and "dirs s1 = dirs s"
    and "list_all (\<lambda>e. is_log e \<or> is_commit_event e) evs1"
    and "exec_failures E (trace s) evs1 = []" and "write_failures E (trace s) evs1 = []"
  shows "steps_ok E s (exec_calls evs1 @ cmds) (write_calls evs1 @ writes) sr"
proof -
  obtain s' r where sr: "sr = (s', r)" by (cases sr)
  from assms(1) sr obtain evs where evs: "trace s' = trace s1 @ evs" "dirs s' = dirs s1"
      "list_all (\<lambda>e. is_log e \<or> is_commit_event e) evs"
      "prefix (exec_calls evs) cmds" "prefix (write_calls evs) writes"
      "r = None \<longrightarrow> exec_calls evs = cmds \<and> write_calls evs = writes"
      "reported E (trace s1) evs r"
    by (auto simp: steps_ok_def)
  have "reported E (trace s) (evs1 @ evs) r"
    using evs(7) assms(5,6) unfolding assms(2) by (rule reported_extend)
  moreover have "trace s' = trace s @ (evs1 @ evs)" using evs(1) assms(2) by simp
  moreover have "list_all (\<lambda>e. is_log e \<or> is_commit_event e) (evs1 @ evs)"
    using evs(3) assms(4) by simp
  moreover have "prefix (exec_calls (evs1 @ evs)) (exec_calls evs1 @ cmds)"
    "prefix (write_calls (evs1 @ evs)) (write_calls evs1 @ writes)"
    using evs(4,5) by (simp_all add: exec_calls_append write_calls_append)
  moreover have "r = None \<longrightarrow> exec_calls (evs1 @ evs) = exec_calls evs1 @ cmds
                    \<and> write_calls (evs1 @ evs) = write_calls evs1 @ writes"
    using evs(6) by (simp add: exec_calls_append write_calls_append)
  ultimately show ?thesis unfolding steps_ok_def sr using evs(2) assms(3) by blast
qed

lemma git_step_ok:
  assumes k: "\<And>s1. steps_ok E s1 cmds writes (k s1)"
    and label: "step_label args = label"
  shows "steps_ok E s ((args, dir) # cmds) writes
     (let s = g_Log f v s;
          ((output, err), s) = git E args dir s
      in case err of
           Some e \<Rightarrow> (s, Some (label @ e @ '', output: '' @ output))
         | None \<Rightarrow> k (g_Log f2 v2 s))"
proof (cases "CombinedOutput E (trace s @ [Log f v]) args dir")
  case (Pair out err)
  show ?thesis
  proof (cases err)
    case None
    let ?s1 = "g_Log f2 v2 (emit (Exec args dir) (g_Log f v s))"
    have "steps_ok E s (exec_calls [Log f v, Exec args dir, Log f2 v2] @ cmds)
            (write_calls [Log f v, Exec args dir, Log f2 v2] @ writes) (k ?s1)"
    proof (rule steps_ok_extend [OF k])
      show "trace ?s1 = trace s @ [Log f v, Exec args dir, Log f2 v2]"
        by (simp add: trace_g_Log trace_emit)
      show "dirs ?s1 = dirs s" by (simp add: dirs_g_Log dirs_emit)
      show "list_all (\<lambda>e. is_log e \<or> is_commit_event e) [Log f v, Exec args dir, Log f2 v2]"
        by simp
      show "exec_failures E (trace s) [Log f v, Exec args dir, Log f2 v2] = []"
        using Pair None by simp
      show "write_failures E (trace s) [Log f v, Exec args dir, Log f2 v2] = []"
        by simp
    qed
    then have "steps_ok E s ((args, dir) # cmds) writes (k ?s1)"
      by (simp add: exec_calls_def write_calls_def)
    then show ?thesis using Pair None by (simp add: git_def trace_g_Log)
  next
    case (Some e)
    let ?s1 = "emit (Exec args dir) (g_Log f v s)"
    have t: "trace ?s1 = trace s @ [Log f v, Exec args dir]" by (simp add: trace_g_Log trace_emit)
    have "reported E (trace s) [Log f v, Exec args dir] (Some (label @ e @ '', output: '' @ out))"
      unfolding reported_def using Pair Some label by auto
    then have "steps_ok E s ((args, dir) # cmds) writes (?s1, Some (label @ e @ '', output: '' @ out))"
      unfolding steps_ok_def using t
      by (auto simp: dirs_g_Log dirs_emit exec_calls_def write_calls_def)
    then show ?thesis using Pair Some by (simp add: git_def trace_g_Log)
  qed
qed

lemma push_branch_ok:
  "steps_ok E s [([''push'', ''origin'', branchName], tempDir)] [] (push_branch E tempDir s)"
proof -
  have "steps_ok E s [([''push'', ''origin'', branchName], tempDir)] []
     (let s = g_Log ''Pushing branch to remote'' [] s;
          ((output, err), s) = git E [''push'', ''origin'', branchName] tempDir s
      in case err of
           Some e \<Rightarrow> (s, Some (''error pushing branch: '' @ e @ '', output: '' @ output))
         | None \<Rightarrow> (\<lambda>s. (s, None)) (g_Log ''Branch pushed successfully'' [] s))"
    by (rule git_step_ok)
       (simp_all add: step_label_def steps_ok_def reported_def exec_calls_def write_calls_def)
  then show ?thesis by (simp add: push_branch_def)
qed

lemma create_commit_ok:
  "steps_ok E s
     [([''commit'', ''-m'', ''Update renovate.json to use MyOtherOrg''] @ (if key \<noteq> [] then [''-S''] else []),
       tempDir),
      ([''push'', ''origin'', branchName], tempDir)] []
     (create_commit E key tempDir s)"
proof -
  let ?cmd = "[''commit'', ''-m'', ''Update renovate.json to use MyOtherOrg''] @ (if key \<noteq> [] then [''-S''] else [])"
  have "steps_ok E s [(?cmd, tempDir), ([''push'', ''origin'', branchName], tempDir)] []
     (let s = g_Log ''Creating commit with command: git %s'' [A_str (strings_Join ?cmd '' '')] s;
          ((output, err), s) = git E ?cmd tempDir s
      in case err of
           Some e \<Rightarrow> (s, Some (''error creating commit: '' @ e @ '', output: '' @ output))
         | None \<Rightarrow> push_branch E tempDir (g_Log ''Commit created successfully'' [] s))"
    by (rule git_step_ok, rule push_branch_ok) (simp add: step_label_def)
  then show ?thesis by (cases "key = []") (simp_all add: create_commit_def Let_def)
qed

lemma configure_signing_ok:
  "steps_ok E s
     ((if key \<noteq> [] then [([''config'', ''user.signingkey'', key], tempDir)] else [])
      @ [([''commit'', ''-m'', ''Update renovate.json to use MyOtherOrg''] @ (if key \<noteq> [] then [''-S''] else []),
          tempDir),
         ([''push'', ''origin'', branchName], tempDir)]) []
     (configure_signing E key tempDir s)"
proof (cases "key = []")
  case True
  then show ?thesis using create_commit_ok [of E s key tempDir] by (simp add: configure_signing_def)
next
  case False
  have "steps_ok E s
        (([''config'', ''user.signingkey'', key], tempDir)
         # [([''commit'', ''-m'', ''Update renovate.json to use MyOtherOrg''] @ (if key \<noteq> [] then [''-S''] else []),
             tempDir),
            ([''push'', ''origin'', branchName], tempDir)]) []
        (let s = g_Log ''Configuring git for signing with key: %s'' [A_str key] s;
             ((output, err), s) = git E [''config'', ''user.signingkey'', key] tempDir s
         in case err of
              Some e \<Rightarrow> (s, Some (''error configuring signing key: '' @ e @ '', output: '' @ output))
            | None \<Rightarrow> create_commit E key tempDir (g_Log ''Git signing configured successfully'' [] s))"
    by (rule git_step_ok, rule create_commit_ok) (simp add: step_label_def)
  then show ?thesis using False by (simp add: configure_signing_def)
qed

lemma add_file_ok:
  "steps_ok E s
     (([''add'', ''renovate.json''], tempDir)
      # (if key \<noteq> [] then [([''config'', ''user.signingkey'', key], tempDir)] else [])
      @ [([''commit'', ''-m'', ''Update renovate.json to use MyOtherOrg''] @ (if key \<noteq> [] then [''-S''] else []),
          tempDir),
         ([''push'', ''origin'', branchName], tempDir)]) []
     (add_file E key tempDir s)"
  unfolding add_file_def
  by (rule git_step_ok, rule configure_signing_ok) (simp add: step_label_def)

lemma write_file_ok:
  "steps_ok E s
     (([''add'', ''renovate.json''], tempDir)
      # (if key \<noteq> [] then [([''config'', ''user.signingkey'', key], tempDir)] else [])
      @ [([''commit'', ''-m'', ''Update renovate.json to use MyOtherOrg''] @ (if key \<noteq> [] then [''-S''] else []),
          tempDir),
         ([''push'', ''origin'', branchName], tempDir)])
     [(filepath_Join tempDir ''renovate.json'', content)]
     (write_file E content key tempDir s)"
proof -
  let ?p = "filepath_Join tempDir ''renovate.json''"
  let ?l = "Log ''Writing renovate.json to: %s'' [A_str ?p]"
  let ?w = "WriteFile_call ?p content"
  let ?l2 = "Log ''renovate.json written successfully'' []"
  let ?s0 = "emit ?w (g_Log ''Writing renovate.json to: %s'' [A_str ?p] s)"
  let ?s1 = "g_Log ''renovate.json written successfully'' [] ?s0"
  let ?cmds = "([''add'', ''renovate.json''], tempDir)
      # (if key \<noteq> [] then [([''config'', ''user.signingkey'', key], tempDir)] else [])
      @ [([''commit'', ''-m'', ''Update renovate.json to use MyOtherOrg''] @ (if key \<noteq> [] then [''-S''] else []),
          tempDir),
         ([''push'', ''origin'', branchName], tempDir)]"
  show ?thesis
  proof (cases "os_WriteFile E (trace s @ [?l]) ?p content")
    case None
    have "steps_ok E s (exec_calls [?l, ?w, ?l2] @ ?cmds) (write_calls [?l, ?w, ?l2] @ [])
            (add_file E key tempDir ?s1)"
    proof (rule steps_ok_extend [OF add_file_ok])
      show "trace ?s1 = trace s @ [?l, ?w, ?l2]" by (simp add: trace_g_Log trace_emit)
      show "dirs ?s1 = dirs s" by (simp add: dirs_g_Log dirs_emit)
      show "list_all (\<lambda>e. is_log e \<or> is_commit_event e) [?l, ?w, ?l2]" by simp
      show "exec_failures E (trace s) [?l, ?w, ?l2] = []" by simp
      show "write_failures E (trace s) [?l, ?w, ?l2] = []" using None by simp
    qed
    then have "steps_ok E s ?cmds [(?p, content)] (add_file E key tempDir ?s1)"
      by (simp add: exec_calls_def write_calls_def)
    then show ?thesis using None by (simp add: write_file_def trace_g_Log Let_def)
  next
    case (Some e)
    have t: "trace ?s0 = trace s @ [?l, ?w]" by (simp add: trace_g_Log trace_emit)
    have "reported E (trace s) [?l, ?w] (Some (''error writing renovate.json: '' @ e))"
      unfolding reported_def using Some by auto
    then have "steps_ok E s ?cmds [(?p, content)] (?s0, Some (''error writing renovate.json: '' @ e))"
      unfolding steps_ok_def using t
      by (auto simp: dirs_g_Log dirs_emit exec_calls_def write_calls_def)
    then show ?thesis using Some by (simp add: write_file_def trace_g_Log Let_def)
  qed
qed

lemma create_branch_ok:
  "steps_ok E s
     (([''checkout'', ''-b'', branchName], tempDir)
      # ([''add'', ''renovate.json''], tempDir)
      # (if key \<noteq> [] then [([''config'', ''user.signingkey'', key], tempDir)] else [])
      @ [([''commit'', ''-m'', ''Update renovate.json to use MyOtherOrg''] @ (if key \<noteq> [] then [''-S''] else []),
          tempDir),
         ([''push'', ''origin'', branchName], tempDir)])
     [(filepath_Join tempDir ''renovate.json'', content)]
     (create_branch E content key tempDir s)"
  unfolding create_branch_def
  by (rule git_step_ok, rule write_file_ok) (simp add: step_label_def)

lemma clone_repository_ok:
  "steps_ok E s (expected_commands repo key tempDir) [(filepath_Join tempDir ''renovate.json'', content)]
     (clone_repository E repo content key tempDir s)"
proof -
  let ?l = "Log ''Created temporary directory: %s'' [A_str tempDir]"
  let ?s0 = "g_Log ''Created temporary directory: %s'' [A_str tempDir] s"
  let ?url = "''git@github.com:'' @ Owner_Login repo @ ''/'' @ Name repo @ ''.git''"
  let ?rest = "([''checkout'', ''-b'', branchName], tempDir)
      # ([''add'', ''renovate.json''], tempDir)
      # (if key \<noteq> [] then [([''config'', ''user.signingkey'', key], tempDir)] else [])
      @ [([''commit'', ''-m'', ''Update renovate.json to use MyOtherOrg''] @ (if key \<noteq> [] then [''-S''] else []),
          tempDir),
         ([''push'', ''origin'', branchName], tempDir)]"
  have "steps_ok E ?s0 (([''clone'', ?url, tempDir], []) # ?rest)
          [(filepath_Join tempDir ''renovate.json'', content)]
     (let s = g_Log ''Cloning repository: %s'' [A_str ?url] ?s0;
          ((output, err), s) = git E [''clone'', ?url, tempDir] [] s
      in case err of
           Some e \<Rightarrow> (s, Some (''error cloning repository: '' @ e @ '', output: '' @ output))
         | None \<Rightarrow> create_branch E content key tempDir
                     (g_Log ''Repository cloned successfully'' [] s))"
    by (rule git_step_ok, rule create_branch_ok) (simp add: step_label_def)
  then have "steps_ok E ?s0 (([''clone'', ?url, tempDir], []) # ?rest)
          [(filepath_Join tempDir ''renovate.json'', content)]
          (clone_repository E repo content key tempDir s)"
    by (simp add: clone_repository_def Let_def)
  then have "steps_ok E s (exec_calls [?l] @ ([''clone'', ?url, tempDir], []) # ?rest)
          (write_calls [?l] @ [(filepath_Join tempDir ''renovate.json'', content)])
          (clone_repository E repo content key tempDir s)"
    by (rule steps_ok_extend [where ?evs1.0 = "[?l]"]) (simp_all add: trace_g_Log dirs_g_Log)
  then show ?thesis
    by (simp add: exec_calls_def write_calls_def expected_commands_def branchName_def)
qed

lemma Contains_suffix: "strings_Contains (a @ b) b"
proof (induction a)
  case Nil
  then show ?case by (cases b) simp_all
next
  case (Cons x a)
  then show ?case by simp
qed

lemma Contains_report: "strings_Contains (label @ e @ '', output: '' @ out) out"
proof -
  have "strings_Contains ((label @ e @ '', output: '') @ out) out" by (rule Contains_suffix)
  then show ?thesis by simp
qed

lemma prefix_snoc_single: "prefix (xs @ [a]) [b] \<Longrightarrow> xs = [] \<and> a = b"
  by (cases xs) (auto simp: prefix_def)

lemma write_calls_last:
  assumes "evs \<noteq> []" and "last evs = WriteFile_call path c" and "prefix (write_calls evs) [w]"
  shows "w = (path, c)"
proof -
  have "evs = butlast evs @ [WriteFile_call path c]" using assms(1,2) by (metis append_butlast_last_id)
  then have "write_calls evs = write_calls (butlast evs) @ [(path, c)]"
    by (metis write_calls_append write_calls_def concat.simps list.simps(8,9) write_call.simps(1) append_Nil2)
  then show ?thesis using assms(3) prefix_snoc_single by metis
qed

lemma trace_deferred_RemoveAll:
  "trace (deferred_RemoveAll E tempDir s) = trace s @ [RemoveAll_call tempDir]"
  by (simp add: deferred_RemoveAll_def Let_def trace_emit split: option.split)

lemma dirs_deferred_RemoveAll:
  "dirs (deferred_RemoveAll E tempDir s) =
     (case os_RemoveAll E (trace s) tempDir of None \<Rightarrow> dirs s - {tempDir} | Some e \<Rightarrow> dirs s)"
  by (simp add: deferred_RemoveAll_def Let_def dirs_emit split: option.split)

text \<open>
  C4, as amended. A call of \<open>createSignedCommit\<close> that created its temporary workspace
  ends with the deferred removal of that workspace, on every path: the removal is the
  last action of the call, the workspace is gone when the removal succeeds, and it stays
  when the removal fails, because the error of the removal is discarded. When the
  workspace could not be created there is none, nothing else runs, and the error says so.
  The git commands that run are the first ones of clone, branch, stage, sign-config (with
  a key), commit and push, in this order, and the file that is written is
  \<open>renovate.json\<close> in the workspace, with the new content. Then exactly one of three things
  happened. Every step succeeded: all the commands ran, the file was written, and the
  call returns no error. Or one git command failed, which is then the last step that
  ran: the error returned is the one of that step, followed by the error and by the
  combined output of the command. Or the write of the file failed, which is then the
  last step that ran, and no git command failed: the error returned is that of the write
  and carries the error of the write only.
\<close>

theorem createSignedCommit_cleanup_and_report:
  assumes run: "createSignedCommit E s repo content key = (s', r)"
    and mk: "os_MkdirTemp E
               (trace s @ [Log ''Starting to create signed commit for repository: %s'' [A_str (FullName repo)]])
               [] ''github-renovate-updater-*'' = (tempDir, err)"
  shows "case err of
           Some e \<Rightarrow> r = Some (''error creating temp directory: '' @ e) \<and> dirs s' = dirs s
                       \<and> exec_calls (since s s') = [] \<and> write_calls (since s s') = []
         | None \<Rightarrow>
             last (trace s') = RemoveAll_call tempDir
             \<and> dirs s' = (case os_RemoveAll E (butlast (trace s')) tempDir of
                            None \<Rightarrow> dirs s - {tempDir}
                          | Some e \<Rightarrow> insert tempDir (dirs s))
             \<and> prefix (exec_calls (since s s')) (expected_commands repo key tempDir)
             \<and> prefix (write_calls (since s s')) [(filepath_Join tempDir ''renovate.json'', content)]
             \<and> ((r = None
                   \<and> exec_failures E (trace s) (since s s') = []
                   \<and> write_failures E (trace s) (since s s') = []
                   \<and> exec_calls (since s s') = expected_commands repo key tempDir
                   \<and> write_calls (since s s') = [(filepath_Join tempDir ''renovate.json'', content)])
                \<or> (\<exists>args dir out e.
                      r = Some (step_label args @ e @ '', output: '' @ out)
                      \<and> strings_Contains (step_label args @ e @ '', output: '' @ out) out
                      \<and> exec_failures E (trace s) (since s s') = [(args, out, e)]
                      \<and> write_failures E (trace s) (since s s') = []
                      \<and> last (butlast (since s s')) = Exec args dir)
                \<or> (\<exists>e.
                      r = Some (''error writing renovate.json: '' @ e)
                      \<and> exec_failures E (trace s) (since s s') = []
                      \<and> write_failures E (trace s) (since s s')
                            = [(filepath_Join tempDir ''renovate.json'', e)]
                      \<and> last (butlast (since s s'))
                            = WriteFile_call (filepath_Join tempDir ''renovate.json'') content))"
proof (cases err)
  case (Some e)
  let ?l = "Log ''Starting to create signed commit for repository: %s'' [A_str (FullName repo)]"
  let ?m = "MkdirTemp_call [] ''github-renovate-updater-*''"
  have res: "s' = emit ?m (g_Log ''Starting to create signed commit for repository: %s'' [A_str (FullName repo)] s)"
      "r = Some (''error creating temp directory: '' @ e)"
    using run mk Some by (simp_all add: createSignedCommit_def trace_g_Log)
  have tr: "trace s' = trace s @ [?l, ?m]" unfolding res(1) by (simp add: trace_g_Log trace_emit)
  have "dirs s' = dirs s" unfolding res(1) by (simp add: dirs_g_Log dirs_emit)
  moreover have "exec_calls (since s s') = []" "write_calls (since s s') = []"
    unfolding since_append [OF tr] by (simp_all add: exec_calls_def write_calls_def)
  ultimately show ?thesis using Some res(2) by simp
next
  case None
  let ?l = "Log ''Starting to create signed commit for repository: %s'' [A_str (FullName repo)]"
  let ?m = "MkdirTemp_call [] ''github-renovate-updater-*''"
  let ?s1 = "(emit ?m (g_Log ''Starting to create signed commit for repository: %s'' [A_str (FullName repo)] s))
               \<lparr>dirs := insert tempDir (dirs s)\<rparr>"
  let ?J = "filepath_Join tempDir ''renovate.json''"
  obtain s2 r2 where body: "clone_repository E repo content key tempDir ?s1 = (s2, r2)"
    by (cases "clone_repository E repo content key tempDir ?s1")
  have t1: "trace ?s1 = trace s @ [?l, ?m]" by (simp add: trace_g_Log trace_emit)
  have "steps_ok E ?s1 (expected_commands repo key tempDir) [(?J, content)] (s2, r2)"
    using clone_repository_ok [of E ?s1 repo key tempDir content] body by simp
  then obtain evs where evs: "trace s2 = trace ?s1 @ evs" "dirs s2 = dirs ?s1"
      "prefix (exec_calls evs) (expected_commands repo key tempDir)"
      "prefix (write_calls evs) [(?J, content)]"
      "r2 = None \<longrightarrow> exec_calls evs = expected_commands repo key tempDir \<and> write_calls evs = [(?J, content)]"
      "reported E (trace ?s1) evs r2"
    unfolding steps_ok_def by auto
  have res: "s' = deferred_RemoveAll E tempDir s2" "r = r2"
    using run mk None body
    by (simp_all add: createSignedCommit_def trace_g_Log dirs_g_Log dirs_emit Let_def)
  have tr: "trace s' = trace s @ ([?l, ?m] @ evs @ [RemoveAll_call tempDir])"
    unfolding res(1) trace_deferred_RemoveAll evs(1) t1 by simp
  have si: "since s s' = [?l, ?m] @ evs @ [RemoveAll_call tempDir]" by (rule since_append [OF tr])
  have bl: "butlast (trace s') = trace s2"
    unfolding res(1) trace_deferred_RemoveAll by simp
  have fl: "exec_failures E (trace s) (since s s') = exec_failures E (trace ?s1) evs"
    unfolding si exec_failures_append t1 by simp
  have wf: "write_failures E (trace s) (since s s') = write_failures E (trace ?s1) evs"
    unfolding si write_failures_append t1 by simp
  have ec: "exec_calls (since s s') = exec_calls evs"
    unfolding si by (simp add: exec_calls_def)
  have wc: "write_calls (since s s') = write_calls evs"
    unfolding si by (simp add: write_calls_def)
  have lb: "evs \<noteq> [] \<Longrightarrow> last (butlast (since s s')) = last evs"
    unfolding si by (simp add: butlast_append)
  have l: "last (trace s') = RemoveAll_call tempDir" unfolding tr by simp
  have d: "dirs s' = (case os_RemoveAll E (butlast (trace s')) tempDir of
                            None \<Rightarrow> dirs s - {tempDir}
                          | Some e \<Rightarrow> insert tempDir (dirs s))"
    unfolding bl unfolding res(1) dirs_deferred_RemoveAll evs(2)
    by (simp add: dirs_g_Log dirs_emit split: option.split)
  from evs(6) consider
      (ok) "r2 = None" "exec_failures E (trace ?s1) evs = []" "write_failures E (trace ?s1) evs = []"
    | (git) args dir out e where "r2 = Some (step_label args @ e @ '', output: '' @ out)"
        "exec_failures E (trace ?s1) evs = [(args, out, e)]"
        "write_failures E (trace ?s1) evs = []" "evs \<noteq> []" "last evs = Exec args dir"
    | (wr) path c e where "r2 = Some (''error writing renovate.json: '' @ e)"
        "exec_failures E (trace ?s1) evs = []"
        "write_failures E (trace ?s1) evs = [(path, e)]" "evs \<noteq> []"
        "last evs = WriteFile_call path c"
    unfolding reported_def by blast
  then have tri: "(r = None
                   \<and> exec_failures E (trace s) (since s s') = []
                   \<and> write_failures E (trace s) (since s s') = []
                   \<and> exec_calls (since s s') = expected_commands repo key tempDir
                   \<and> write_calls (since s s') = [(?J, content)])
                \<or> (\<exists>args dir out e.
                      r = Some (step_label args @ e @ '', output: '' @ out)
                      \<and> strings_Contains (step_label args @ e @ '', output: '' @ out) out
                      \<and> exec_failures E (trace s) (since s s') = [(args, out, e)]
                      \<and> write_failures E (trace s) (since s s') = []
                      \<and> last (butlast (since s s')) = Exec args dir)
                \<or> (\<exists>e.
                      r = Some (''error writing renovate.json: '' @ e)
                      \<and> exec_failures E (trace s) (since s s') = []
                      \<and> write_failures E (trace s) (since s s') = [(?J, e)]
                      \<and> last (butlast (since s s')) = WriteFile_call ?J content)"
  proof cases
    case ok
    then show ?thesis unfolding fl wf ec wc res(2) using evs(5) by simp
  next
    case git
    have "strings_Contains (step_label args @ e @ '', output: '' @ out) out"
      by (rule Contains_report)
    moreover have "last (butlast (since s s')) = Exec args dir" using lb git(4,5) by simp
    ultimately have "\<exists>args dir out e.
                      r = Some (step_label args @ e @ '', output: '' @ out)
                      \<and> strings_Contains (step_label args @ e @ '', output: '' @ out) out
                      \<and> exec_failures E (trace s) (since s s') = [(args, out, e)]
                      \<and> write_failures E (trace s) (since s s') = []
                      \<and> last (butlast (since s s')) = Exec args dir"
      unfolding fl wf res(2) using git(1,2,3) by blast
    then show ?thesis by blast
  next
    case wr
    have "(?J, content) = (path, c)" using wr(4,5) evs(4) by (rule write_calls_last)
    then have pc: "path = ?J" "c = content" by simp_all
    have "last (butlast (since s s')) = WriteFile_call ?J content" using lb wr(4,5) pc by simp
    then have "\<exists>e.
                      r = Some (''error writing renovate.json: '' @ e)
                      \<and> exec_failures E (trace s) (since s s') = []
                      \<and> write_failures E (trace s) (since s s') = [(?J, e)]
                      \<and> last (butlast (since s s')) = WriteFile_call ?J content"
      unfolding fl wf res(2) using wr(1,2,3) pc by blast
    then show ?thesis by blast
  qed
  have p1: "prefix (exec_calls (since s s')) (expected_commands repo key tempDir)"
    unfolding ec by (rule evs(3))
  have p2: "prefix (write_calls (since s s')) [(?J, content)]"
    unfolding wc by (rule evs(4))
  show ?thesis unfolding None option.case using l d p1 p2 tri by blast
qed
lemma push_refused_run:
  "snd (createSignedCommit acme_push_refused start repoB ''extends github>MyOtherOrg/lib'' [])
     = Some ''error pushing branch: exit status 1, output: remote: permission denied''"
  by (simp add: createSignedCommit_def clone_repository_def create_branch_def write_file_def
      add_file_def configure_signing_def create_commit_def push_branch_def git_def g_Log_def
      emit_def acme_push_refused_def acme_def start_def repoB_def deferred_RemoveAll_def
      branchName_def Let_def)

theorem createSignedCommit_cleanup_and_report_witness:
  "os_MkdirTemp acme_push_refused
      (trace start @ [Log ''Starting to create signed commit for repository: %s'' [A_str (FullName repoB)]])
      [] ''github-renovate-updater-*'' = (''/tmp/github-renovate-updater-1'', None)
   \<and> snd (createSignedCommit acme_push_refused start repoB ''extends github>MyOtherOrg/lib'' [])
        = Some ''error pushing branch: exit status 1, output: remote: permission denied''
   \<and> dirs (fst (createSignedCommit acme_push_refused start repoB ''extends github>MyOtherOrg/lib'' []))
        = {}
   \<and> last (trace (fst (createSignedCommit acme_push_refused start repoB ''extends github>MyOtherOrg/lib'' [])))
        = RemoveAll_call ''/tmp/github-renovate-updater-1''
   \<and> prefix (write_calls (since start
          (fst (createSignedCommit acme_push_refused start repoB ''extends github>MyOtherOrg/lib'' []))))
        [(''/tmp/github-renovate-updater-1/renovate.json'', ''extends github>MyOtherOrg/lib'')]"
proof -
  have mk: "os_MkdirTemp acme_push_refused
      (trace start @ [Log ''Starting to create signed commit for repository: %s'' [A_str (FullName repoB)]])
      [] ''github-renovate-updater-*'' = (''/tmp/github-renovate-updater-1'', None)"
    by (simp add: acme_push_refused_def acme_def)
  have run: "createSignedCommit acme_push_refused start repoB ''extends github>MyOtherOrg/lib'' []
      = (fst (createSignedCommit acme_push_refused start repoB ''extends github>MyOtherOrg/lib'' []),
         snd (createSignedCommit acme_push_refused start repoB ''extends github>MyOtherOrg/lib'' []))"
    by simp
  have rm: "\<And>tr. os_RemoveAll acme_push_refused tr ''/tmp/github-renovate-updater-1'' = None"
    by (simp add: acme_push_refused_def acme_def)
  have j: "filepath_Join ''/tmp/github-renovate-updater-1'' ''renovate.json''
             = ''/tmp/github-renovate-updater-1/renovate.json''"
    by (simp add: filepath_Join_def filepath_Clean_def)
  have d: "dirs start = {}" by (simp add: start_def)
  show ?thesis
    using createSignedCommit_cleanup_and_report [OF run mk] mk push_refused_run
    by (simp add: rm j d)
qed

text \<open>
  The claim as it was stated fails twice. For the step that writes the file: the program
  writes it itself, no git command runs in that step, and the error that comes back
  holds the error of the write and nothing that git printed. For the removal: its error
  is discarded, so when the removal fails the call returns as if nothing had happened
  (here without an error, every step having succeeded) and the workspace is still there.
\<close>

theorem write_failure_counterexample:
  "snd (createSignedCommit acme_disk_full start repoB ''extends github>MyOtherOrg/lib'' [])
     = Some ''error writing renovate.json: no space left on device''
   \<and> exec_failures acme_disk_full (trace start)
        (since start (fst (createSignedCommit acme_disk_full start repoB ''extends github>MyOtherOrg/lib'' [])))
     = []
   \<and> CombinedOutput acme_disk_full [] [''clone'', ''git@github.com:Acme/B.git'', ''/tmp/github-renovate-updater-1''] []
       = (''git says ok'', None)
   \<and> \<not> strings_Contains ''error writing renovate.json: no space left on device'' ''git says ok''
   \<and> snd (createSignedCommit acme_stuck start repoB ''extends github>MyOtherOrg/lib'' []) = None
   \<and> ''/tmp/github-renovate-updater-1''
        \<in> dirs (fst (createSignedCommit acme_stuck start repoB ''extends github>MyOtherOrg/lib'' []))"
  by (simp add: createSignedCommit_def clone_repository_def create_branch_def write_file_def
      add_file_def configure_signing_def create_commit_def push_branch_def git_def g_Log_def
      emit_def acme_disk_full_def acme_stuck_def acme_def start_def repoB_def
      deferred_RemoveAll_def branchName_def Let_def since_def)

section \<open>The update workflow of one repository\<close>

lemma createSignedCommit_events:
  assumes "createSignedCommit E s repo content key = (s', r)"
  shows "\<exists>evs. trace s' = trace s @ evs \<and> list_all (\<lambda>e. is_log e \<or> is_commit_event e) evs"
proof -
  let ?l = "Log ''Starting to create signed commit for repository: %s'' [A_str (FullName repo)]"
  let ?m = "MkdirTemp_call [] ''github-renovate-updater-*''"
  obtain tempDir err where mk: "os_MkdirTemp E (trace s @ [?l]) [] ''github-renovate-updater-*'' = (tempDir, err)"
    by (cases "os_MkdirTemp E (trace s @ [?l]) [] ''github-renovate-updater-*''")
  show ?thesis
  proof (cases err)
    case (Some e)
    then have "trace s' = trace s @ [?l, ?m]" using assms mk
      by (auto simp: createSignedCommit_def trace_g_Log trace_emit)
    then show ?thesis by simp
  next
    case None
    let ?s1 = "(emit ?m (g_Log ''Starting to create signed commit for repository: %s'' [A_str (FullName repo)] s))
               \<lparr>dirs := insert tempDir (dirs s)\<rparr>"
    obtain s2 r2 where body: "clone_repository E repo content key tempDir ?s1 = (s2, r2)"
      by (cases "clone_repository E repo content key tempDir ?s1")
    have "steps_ok E ?s1 (expected_commands repo key tempDir)
            [(filepath_Join tempDir ''renovate.json'', content)] (s2, r2)"
      using clone_repository_ok [of E ?s1 repo key tempDir content] body by simp
    then obtain evs where evs: "trace s2 = trace ?s1 @ evs"
        "list_all (\<lambda>e. is_log e \<or> is_commit_event e) evs"
      unfolding steps_ok_def by auto
    have "s' = deferred_RemoveAll E tempDir s2"
      using assms mk None body
      by (simp add: createSignedCommit_def trace_g_Log dirs_g_Log dirs_emit Let_def)
    then have "trace s' = trace s @ ([?l, ?m] @ evs @ [RemoveAll_call tempDir])"
      using evs(1) by (simp add: trace_emit trace_g_Log trace_deferred_RemoveAll)
    moreover have "list_all (\<lambda>e. is_log e \<or> is_commit_event e) ([?l, ?m] @ evs @ [RemoveAll_call tempDir])"
      using evs(2) by simp
    ultimately show ?thesis by blast
  qed
qed


lemma grows_refl: "grows P s s"
  by (simp add: grows_def)

lemma grows_emit: "grows P s s' \<Longrightarrow> P e \<Longrightarrow> grows P s (emit e s')"
  by (auto simp: grows_def trace_emit)

lemma grows_g_Log: "grows P s s' \<Longrightarrow> P (Log f v) \<Longrightarrow> grows P s (g_Log f v s')"
  by (auto simp: grows_def trace_g_Log)

lemma grows_trans: "grows P s s1 \<Longrightarrow> grows P s1 s2 \<Longrightarrow> grows P s s2"
  by (auto simp: grows_def)

lemma grows_mono: "grows P s s' \<Longrightarrow> (\<And>e. P e \<Longrightarrow> Q e) \<Longrightarrow> grows Q s s'"
  unfolding grows_def by (metis list.pred_mono_strong)

lemma later_event_simps:
  "later_event (Log f v)" "later_event (Get_call a b)" "later_event (Create_call a b pr)"
  by (simp_all add: later_event_def)

lemma open_pull_request_grows: "grows later_event s (fst (open_pull_request E repo s))"
  by (simp add: open_pull_request_def Let_def grows_refl grows_emit grows_g_Log later_event_simps
      split: prod.split option.split)

lemma createSignedCommit_grows: "grows later_event s (fst (createSignedCommit E s repo content key))"
proof -
  obtain s' r where run: "createSignedCommit E s repo content key = (s', r)"
    by (cases "createSignedCommit E s repo content key")
  from createSignedCommit_events [OF run]
  have "grows (\<lambda>e. is_log e \<or> is_commit_event e) s s'" by (simp add: grows_def)
  then have "grows later_event s s'" by (rule grows_mono) (auto simp: later_event_def)
  then show ?thesis using run by simp
qed

lemma publish_grows: "grows later_event s (fst (publish E repo dry key new s))"
proof (cases dry)
  case True
  then show ?thesis by (simp add: publish_def grows_refl grows_g_Log later_event_simps)
next
  case False
  let ?s0 = "g_Log ''Creating signed commit'' [] s"
  obtain s1 err where c: "createSignedCommit E ?s0 repo new key = (s1, err)"
    by (cases "createSignedCommit E ?s0 repo new key")
  have g0: "grows later_event s ?s0" by (simp add: grows_refl grows_g_Log later_event_simps)
  have "grows later_event ?s0 s1" using createSignedCommit_grows [of ?s0 E repo new key] c by simp
  then have g1: "grows later_event s s1" using g0 grows_trans by blast
  show ?thesis
  proof (cases err)
    case (Some e)
    then show ?thesis using False c g1 by (simp add: publish_def)
  next
    case None
    let ?s2 = "g_Log ''Signed commit created successfully'' [] s1"
    have "grows later_event s ?s2" using g1 by (simp add: grows_g_Log later_event_simps)
    then have "grows later_event s (fst (open_pull_request E repo ?s2))"
      using open_pull_request_grows grows_trans by blast
    then show ?thesis using False c None by (simp add: publish_def)
  qed
qed


lemma publish_grows_from:
  "grows later_event s s1 \<Longrightarrow> grows later_event s (fst (publish E repo dry key new s1))"
  using publish_grows grows_trans by blast

lemma CheckAndUpdate_grows:
  "grows later_event
     (emit (GetContents_call (Owner_Login repo) (Name repo) ''renovate.json'')
        (g_Log ''Getting renovate.json content'' []
           (g_Log ''Starting to check and update renovate config for repository: %s''
              [A_str (FullName repo)] s)))
     (fst (CheckAndUpdateRenovateConfig E s repo dry key))"
  by (simp add: CheckAndUpdateRenovateConfig_def Let_def grows_refl grows_g_Log later_event_simps
      publish_grows_from split: prod.split option.split sum.split)

lemma later_no_contents_calls: "list_all later_event evs \<Longrightarrow> contents_calls evs = []"
proof (induction evs)
  case Nil
  then show ?case by (simp add: contents_calls_def)
next
  case (Cons e evs)
  then show ?case by (cases e) (simp_all add: contents_calls_def later_event_def)
qed

lemma CheckAndUpdate_since:
  "\<exists>evs. since s (fst (CheckAndUpdateRenovateConfig E s repo dry key))
          = [Log ''Starting to check and update renovate config for repository: %s'' [A_str (FullName repo)],
             Log ''Getting renovate.json content'' [],
             GetContents_call (Owner_Login repo) (Name repo) ''renovate.json''] @ evs
        \<and> list_all later_event evs"
proof -
  from CheckAndUpdate_grows [of repo s E dry key]
  obtain evs where evs: "trace (fst (CheckAndUpdateRenovateConfig E s repo dry key))
      = trace s @ [Log ''Starting to check and update renovate config for repository: %s'' [A_str (FullName repo)],
             Log ''Getting renovate.json content'' [],
             GetContents_call (Owner_Login repo) (Name repo) ''renovate.json''] @ evs"
      "list_all later_event evs"
    by (auto simp: grows_def trace_emit trace_g_Log)
  from evs(1) have "since s (fst (CheckAndUpdateRenovateConfig E s repo dry key))
      = [Log ''Starting to check and update renovate config for repository: %s'' [A_str (FullName repo)],
             Log ''Getting renovate.json content'' [],
             GetContents_call (Owner_Login repo) (Name repo) ''renovate.json''] @ evs"
    by (rule since_append)
  then show ?thesis using evs(2) by blast
qed

lemma CheckAndUpdate_contents_calls:
  "contents_calls (since s (fst (CheckAndUpdateRenovateConfig E s repo dry key)))
     = [(Owner_Login repo, Name repo, ''renovate.json'')]"
proof -
  obtain evs where evs: "since s (fst (CheckAndUpdateRenovateConfig E s repo dry key))
          = [Log ''Starting to check and update renovate config for repository: %s'' [A_str (FullName repo)],
             Log ''Getting renovate.json content'' [],
             GetContents_call (Owner_Login repo) (Name repo) ''renovate.json''] @ evs"
        "list_all later_event evs"
    using CheckAndUpdate_since by blast
  have "contents_calls evs = []" using evs(2) by (rule later_no_contents_calls)
  then show ?thesis unfolding evs(1) by (simp add: contents_calls_def)
qed

lemma CheckAndUpdate_fetch_failed:
  assumes "Repositories_GetContents E (before_fetch s repo) (Owner_Login repo) (Name repo) ''renovate.json''
             = (content, resp, Some e)"
  shows "CheckAndUpdateRenovateConfig E s repo dry key
           = (emit (GetContents_call (Owner_Login repo) (Name repo) ''renovate.json'')
                (g_Log ''Getting renovate.json content'' []
                   (g_Log ''Starting to check and update renovate config for repository: %s''
                      [A_str (FullName repo)] s)),
              Failure (''error getting renovate.json content: '' @ e))"
  using assms
  by (simp add: CheckAndUpdateRenovateConfig_def before_fetch_def trace_g_Log Let_def)

lemma CheckAndUpdate_no_marker:
  assumes "Repositories_GetContents E (before_fetch s repo) (Owner_Login repo) (Name repo) ''renovate.json''
             = (Some c, resp, None)"
    and "GetContent c = Inr contentStr"
    and "\<not> strings_Contains contentStr marker"
  shows "CheckAndUpdateRenovateConfig E s repo dry key
           = (g_Log (''No need to update - content does not contain '' @ quoted marker) []
               (g_Log ''Content decoded successfully'' []
                 (g_Log ''Successfully retrieved renovate.json content'' []
                   (emit (GetContents_call (Owner_Login repo) (Name repo) ''renovate.json'')
                     (g_Log ''Getting renovate.json content'' []
                       (g_Log ''Starting to check and update renovate config for repository: %s''
                          [A_str (FullName repo)] s))))),
              Success)"
  using assms
  by (simp add: CheckAndUpdateRenovateConfig_def before_fetch_def trace_g_Log Let_def)

lemma CheckAndUpdate_dry_run:
  assumes "Repositories_GetContents E (before_fetch s repo) (Owner_Login repo) (Name repo) ''renovate.json''
             = (Some c, resp, None)"
    and "GetContent c = Inr contentStr"
    and "strings_Contains contentStr marker"
  shows "CheckAndUpdateRenovateConfig E s repo True key
           = (g_Log ''[DRY RUN] Would update renovate.json in %s'' [A_str (FullName repo)]
              (g_Log ''Content updated successfully'' []
               (g_Log (''Content contains '' @ quoted marker @ '' - proceeding with update'') []
                (g_Log ''Content decoded successfully'' []
                 (g_Log ''Successfully retrieved renovate.json content'' []
                   (emit (GetContents_call (Owner_Login repo) (Name repo) ''renovate.json'')
                     (g_Log ''Getting renovate.json content'' []
                       (g_Log ''Starting to check and update renovate config for repository: %s''
                          [A_str (FullName repo)] s))))))),
              Success)"
  using assms
  by (simp add: CheckAndUpdateRenovateConfig_def before_fetch_def trace_g_Log Let_def publish_def)

text \<open>
  C2. When the fetch and the decoding succeed and the decoded text does not hold the
  marker \<open>github>MyOrg/\<close>, the workflow returns without an error, its last action is the
  log line that says so, and it has neither started a commit (no workspace, no git
  command, no file write) nor asked for a pull request.
\<close>

theorem no_marker_is_no_op:
  assumes "Repositories_GetContents E (before_fetch s repo) (Owner_Login repo) (Name repo) ''renovate.json''
             = (Some c, resp, None)"
    and "GetContent c = Inr contentStr"
    and "\<not> strings_Contains contentStr marker"
  shows "\<exists>s'. CheckAndUpdateRenovateConfig E s repo dry key = (s', Success)
           \<and> dirs s' = dirs s
           \<and> filter is_commit_event (since s s') = []
           \<and> filter is_pull_request_event (since s s') = []
           \<and> filter is_metadata_event (since s s') = []
           \<and> last (since s s')
               = Log (''No need to update - content does not contain '' @ quoted marker) []"
  unfolding CheckAndUpdate_no_marker [OF assms]
  by (simp add: since_def trace_g_Log trace_emit dirs_g_Log dirs_emit)

theorem no_marker_is_no_op_witness:
  "Repositories_GetContents acme (before_fetch start repoD) (Owner_Login repoD) (Name repoD) ''renovate.json''
     = (Some \<lparr>GetContent = Inr ''extends config:base''\<rparr>, Some ok_response, None)
   \<and> \<not> strings_Contains ''extends config:base'' marker
   \<and> (\<exists>s'. CheckAndUpdateRenovateConfig acme start repoD False [] = (s', Success)
           \<and> dirs s' = dirs start
           \<and> filter is_commit_event (since start s') = []
           \<and> filter is_pull_request_event (since start s') = []
           \<and> filter is_metadata_event (since start s') = []
           \<and> last (since start s')
               = Log (''No need to update - content does not contain '' @ quoted marker) [])"
proof -
  have f: "Repositories_GetContents acme (before_fetch start repoD) (Owner_Login repoD) (Name repoD) ''renovate.json''
     = (Some \<lparr>GetContent = Inr ''extends config:base''\<rparr>, Some ok_response, None)"
    by (simp add: acme_def repoD_def)
  have d: "GetContent \<lparr>GetContent = Inr ''extends config:base''\<rparr> = Inr ''extends config:base''"
    by simp
  have m: "\<not> strings_Contains ''extends config:base'' marker"
    by (simp add: marker_def)
  show ?thesis using no_marker_is_no_op [OF f d m, of False "[]"] f m by simp
qed

text \<open>
  C3. When the decoded text holds the marker and the dry-run flag is set, the workflow
  returns without an error, its last action is the dry-run log line, and besides the
  fetch it has only written log lines: no commit was started, the repository metadata
  were not fetched, no pull request was asked for.
\<close>

theorem dry_run_is_no_op:
  assumes "Repositories_GetContents E (before_fetch s repo) (Owner_Login repo) (Name repo) ''renovate.json''
             = (Some c, resp, None)"
    and "GetContent c = Inr contentStr"
    and "strings_Contains contentStr marker"
  shows "\<exists>s'. CheckAndUpdateRenovateConfig E s repo True key = (s', Success)
           \<and> dirs s' = dirs s
           \<and> filter is_commit_event (since s s') = []
           \<and> filter is_metadata_event (since s s') = []
           \<and> filter is_pull_request_event (since s s') = []
           \<and> filter (\<lambda>e. \<not> is_log e) (since s s')
               = [GetContents_call (Owner_Login repo) (Name repo) ''renovate.json'']
           \<and> last (since s s')
               = Log ''[DRY RUN] Would update renovate.json in %s'' [A_str (FullName repo)]"
  unfolding CheckAndUpdate_dry_run [OF assms]
  by (simp add: since_def trace_g_Log trace_emit dirs_g_Log dirs_emit)

theorem dry_run_is_no_op_witness:
  "Repositories_GetContents acme (before_fetch start repoB) (Owner_Login repoB) (Name repoB) ''renovate.json''
     = (Some \<lparr>GetContent = Inr ''extends github>MyOrg/lib''\<rparr>, Some ok_response, None)
   \<and> strings_Contains ''extends github>MyOrg/lib'' marker
   \<and> (\<exists>s'. CheckAndUpdateRenovateConfig acme start repoB True [] = (s', Success)
           \<and> dirs s' = dirs start
           \<and> filter is_commit_event (since start s') = []
           \<and> filter is_metadata_event (since start s') = []
           \<and> filter is_pull_request_event (since start s') = []
           \<and> filter (\<lambda>e. \<not> is_log e) (since start s')
               = [GetContents_call (Owner_Login repoB) (Name repoB) ''renovate.json'']
           \<and> last (since start s')
               = Log ''[DRY RUN] Would update renovate.json in %s'' [A_str (FullName repoB)])"
proof -
  have f: "Repositories_GetContents acme (before_fetch start repoB) (Owner_Login repoB) (Name repoB) ''renovate.json''
     = (Some \<lparr>GetContent = Inr ''extends github>MyOrg/lib''\<rparr>, Some ok_response, None)"
    by (simp add: acme_def repoB_def)
  have d: "GetContent \<lparr>GetContent = Inr ''extends github>MyOrg/lib''\<rparr> = Inr ''extends github>MyOrg/lib''"
    by simp
  have m: "strings_Contains ''extends github>MyOrg/lib'' marker"
    by (simp add: marker_def)
  show ?thesis using dry_run_is_no_op [OF f d m, of "[]"] f m by simp
qed



section \<open>The probe of one repository\<close>

lemma content_checks_append:
  "content_checks E pre (xs @ ys) = content_checks E pre xs @ content_checks E (pre @ xs) ys"
  by (induction xs arbitrary: pre) auto

lemma check_path_spec:
  assumes "check_path E org repo p s = (s', found)"
  shows "trace s' = trace s @ since s s'
       \<and> dirs s' = dirs s
       \<and> list_all probe_event (since s s')
       \<and> (content_checks E (trace s) (since s s') = [(p, found)]
          \<or> content_checks E (trace s) (since s s') = [(p, False), (p, found)])"
  using assms
  by (auto simp: check_path_def Let_def log_check_error_def since_def trace_g_Log trace_emit
      dirs_g_Log dirs_emit split: prod.splits option.splits if_splits)


lemma check_path_checks:
  assumes "check_path E org repo p s = (s', found)"
  shows "\<exists>i cs. content_checks E (trace s) (since s s') = cs \<and> (i = 1 \<or> i = 2)
            \<and> map fst cs = replicate i p
            \<and> (\<forall>k. Suc k < length cs \<longrightarrow> \<not> snd (cs ! k))
            \<and> cs \<noteq> [] \<and> snd (last cs) = found"
proof -
  from check_path_spec [OF assms]
  have "content_checks E (trace s) (since s s') = [(p, found)]
          \<or> content_checks E (trace s) (since s s') = [(p, False), (p, found)]" by simp
  then show ?thesis
  proof
    assume a: "content_checks E (trace s) (since s s') = [(p, found)]"
    show ?thesis by (rule exI [of _ 1]) (simp add: a)
  next
    assume a: "content_checks E (trace s) (since s s') = [(p, False), (p, found)]"
    show ?thesis by (rule exI [of _ 2]) (simp add: a numeral_2_eq_2)
  qed
qed

lemma since_trans:
  assumes "trace s1 = trace s @ since s s1" and "trace s2 = trace s1 @ since s1 s2"
  shows "since s s2 = since s s1 @ since s1 s2" and "trace s2 = trace s @ since s s2"
proof -
  have "trace s2 = trace s @ (since s s1 @ since s1 s2)" using assms by simp
  then show "since s s2 = since s s1 @ since s1 s2" by (rule since_append)
  then show "trace s2 = trace s @ since s s2" using assms by simp
qed

lemma check_paths_spec:
  assumes "check_paths E org repo paths (s, allRepos) = (s', allRepos')"
  shows "trace s' = trace s @ since s s'
       \<and> dirs s' = dirs s
       \<and> list_all probe_event (since s s')
       \<and> (\<exists>i j cs. content_checks E (trace s) (since s s') = cs
             \<and> (i = 1 \<or> i = 2) \<and> j \<le> 2
             \<and> map fst cs = replicate i ''renovate.json'' @ replicate j ''.github/renovate.json''
             \<and> (\<forall>k. Suc k < length cs \<longrightarrow> \<not> snd (cs ! k))
             \<and> cs \<noteq> []
             \<and> allRepos' = (if snd (last cs) then allRepos @ [repo] else allRepos))"
proof -
  obtain s1 f1 where c1: "check_path E org repo ''renovate.json'' s = (s1, f1)"
    by (cases "check_path E org repo ''renovate.json'' s")
  note sp1 = check_path_spec [OF c1]
  from check_path_checks [OF c1] obtain i cs1 where cs1:
    "content_checks E (trace s) (since s s1) = cs1" "i = 1 \<or> i = 2"
    "map fst cs1 = replicate i ''renovate.json''"
    "\<forall>k. Suc k < length cs1 \<longrightarrow> \<not> snd (cs1 ! k)" "cs1 \<noteq> []" "snd (last cs1) = f1"
    by blast
  show ?thesis
  proof (cases f1)
    case True
    then have r: "s' = s1" "allRepos' = allRepos @ [repo]"
      using assms c1 by (simp_all add: paths_def)
    have "\<exists>i j cs. content_checks E (trace s) (since s s1) = cs
             \<and> (i = 1 \<or> i = 2) \<and> j \<le> 2
             \<and> map fst cs = replicate i ''renovate.json'' @ replicate j ''.github/renovate.json''
             \<and> (\<forall>k. Suc k < length cs \<longrightarrow> \<not> snd (cs ! k))
             \<and> cs \<noteq> []
             \<and> allRepos @ [repo] = (if snd (last cs) then allRepos @ [repo] else allRepos)"
      using cs1 True by (intro exI [of _ i] exI [of _ 0] exI [of _ cs1]) simp
    then show ?thesis using sp1 unfolding r by simp
  next
    case False
    obtain s2 f2 where c2: "check_path E org repo ''.github/renovate.json'' s1 = (s2, f2)"
      by (cases "check_path E org repo ''.github/renovate.json'' s1")
    note sp2 = check_path_spec [OF c2]
    from check_path_checks [OF c2] obtain j cs2 where cs2:
      "content_checks E (trace s1) (since s1 s2) = cs2" "j = 1 \<or> j = 2"
      "map fst cs2 = replicate j ''.github/renovate.json''"
      "\<forall>k. Suc k < length cs2 \<longrightarrow> \<not> snd (cs2 ! k)" "cs2 \<noteq> []" "snd (last cs2) = f2"
      by blast
    have r: "s' = s2" "allRepos' = (if f2 then allRepos @ [repo] else allRepos)"
      using assms c1 c2 False by (auto simp: paths_def split: bool.splits)
    have t1: "trace s1 = trace s @ since s s1" and t2: "trace s2 = trace s1 @ since s1 s2"
      using sp1 sp2 by simp_all
    note st = since_trans [OF t1 t2]
    have cc: "content_checks E (trace s) (since s s2) = cs1 @ cs2"
      unfolding st(1) content_checks_append using cs1(1) cs2(1) t1 by simp
    have allF: "\<forall>k < length cs1. \<not> snd (cs1 ! k)"
    proof (intro allI impI)
      fix k assume k: "k < length cs1"
      show "\<not> snd (cs1 ! k)"
      proof (cases "Suc k < length cs1")
        case True
        then show ?thesis using cs1(4) by simp
      next
        case False
        then have "k = length cs1 - 1" using k by simp
        then have "cs1 ! k = last cs1" using cs1(5) by (simp add: last_conv_nth)
        then show ?thesis using cs1(6) \<open>\<not> f1\<close> by simp
      qed
    qed
    have nth: "\<forall>k. Suc k < length (cs1 @ cs2) \<longrightarrow> \<not> snd ((cs1 @ cs2) ! k)"
    proof (intro allI impI)
      fix k assume k: "Suc k < length (cs1 @ cs2)"
      show "\<not> snd ((cs1 @ cs2) ! k)"
      proof (cases "k < length cs1")
        case True
        then show ?thesis using allF by (simp add: nth_append)
      next
        case False
        then have "Suc (k - length cs1) < length cs2" using k by simp
        then have "\<not> snd (cs2 ! (k - length cs1))" using cs2(4) by simp
        then show ?thesis using False by (simp add: nth_append)
      qed
    qed
    have "\<exists>i j cs. content_checks E (trace s) (since s s2) = cs
             \<and> (i = 1 \<or> i = 2) \<and> j \<le> 2
             \<and> map fst cs = replicate i ''renovate.json'' @ replicate j ''.github/renovate.json''
             \<and> (\<forall>k. Suc k < length cs \<longrightarrow> \<not> snd (cs ! k))
             \<and> cs \<noteq> []
             \<and> (if f2 then allRepos @ [repo] else allRepos)
                  = (if snd (last cs) then allRepos @ [repo] else allRepos)"
      using cc cs1(2,3) cs2(2,3,5,6) nth
      by (intro exI [of _ i] exI [of _ j] exI [of _ "cs1 @ cs2"]) auto
    moreover have "list_all probe_event (since s s2)"
      unfolding st(1) using sp1 sp2 by simp
    moreover have "dirs s2 = dirs s" using sp1 sp2 by simp
    ultimately show ?thesis using st(2) unfolding r by simp
  qed
qed


lemma check_paths_first_found:
  assumes "Repositories_GetContents E (trace s) org (Name repo) ''renovate.json'' = (c, resp, None)"
  shows "check_paths E org repo paths (s, allRepos)
           = (g_Log ''Found renovate.json in %s at %s'' [A_str (FullName repo), A_str ''renovate.json'']
                (emit (GetContents_call org (Name repo) ''renovate.json'') s),
              allRepos @ [repo])"
  using assms by (simp add: paths_def check_path_def)

lemma check_paths_nested_found:
  assumes "Repositories_GetContents E (trace s) org (Name repo) ''renovate.json'' = (c, Some r, Some e)"
    and "StatusCode r = 404"
    and "Repositories_GetContents E (trace s @ [GetContents_call org (Name repo) ''renovate.json''])
           org (Name repo) ''.github/renovate.json'' = (c', resp', None)"
  shows "check_paths E org repo paths (s, allRepos)
           = (g_Log ''Found renovate.json in %s at %s'' [A_str (FullName repo), A_str ''.github/renovate.json'']
                (emit (GetContents_call org (Name repo) ''.github/renovate.json'')
                   (emit (GetContents_call org (Name repo) ''renovate.json'') s)),
              allRepos @ [repo])"
  using assms by (simp add: paths_def check_path_def trace_emit)

lemma check_path_exact:
  assumes "check_path E org repo p s = (s', found)"
  shows "content_checks E (trace s) (since s s')
           = (if retry_due E (trace s) org repo p then [(p, False), (p, found)] else [(p, found)])"
  using assms
  by (auto simp: check_path_def retry_due_def Let_def log_check_error_def since_def trace_g_Log
      trace_emit split: prod.splits option.splits if_splits)

lemma check_paths_exact:
  assumes "check_paths E org repo paths (s, allRepos) = (s', allRepos')"
  shows "\<exists>evs1 evs2 f1.
           since s s' = evs1 @ evs2
           \<and> content_checks E (trace s) evs1
               = (if retry_due E (trace s) org repo ''renovate.json''
                  then [(''renovate.json'', False), (''renovate.json'', f1)]
                  else [(''renovate.json'', f1)])
           \<and> (if f1 then evs2 = [] \<and> allRepos' = allRepos @ [repo]
              else \<exists>f2. content_checks E (trace s @ evs1) evs2
                           = (if retry_due E (trace s @ evs1) org repo ''.github/renovate.json''
                              then [(''.github/renovate.json'', False), (''.github/renovate.json'', f2)]
                              else [(''.github/renovate.json'', f2)])
                         \<and> allRepos' = (if f2 then allRepos @ [repo] else allRepos))"
proof -
  obtain s1 f1 where c1: "check_path E org repo ''renovate.json'' s = (s1, f1)"
    by (cases "check_path E org repo ''renovate.json'' s")
  note sp1 = check_path_spec [OF c1]
  note e1 = check_path_exact [OF c1]
  have t1: "trace s1 = trace s @ since s s1" using sp1 by simp
  show ?thesis
  proof (cases f1)
    case True
    then have r: "s' = s1" "allRepos' = allRepos @ [repo]"
      using assms c1 by (simp_all add: paths_def)
    show ?thesis
      apply (rule exI [of _ "since s s1"], rule exI [of _ "[]"], rule exI [of _ True])
      using e1 True r by simp
  next
    case False
    obtain s2 f2 where c2: "check_path E org repo ''.github/renovate.json'' s1 = (s2, f2)"
      by (cases "check_path E org repo ''.github/renovate.json'' s1")
    note sp2 = check_path_spec [OF c2]
    note e2 = check_path_exact [OF c2]
    have t2: "trace s2 = trace s1 @ since s1 s2" using sp2 by simp
    have r: "s' = s2" "allRepos' = (if f2 then allRepos @ [repo] else allRepos)"
      using assms c1 c2 False by (auto simp: paths_def split: bool.splits)
    note st = since_trans [OF t1 t2]
    have e2': "content_checks E (trace s @ since s s1) (since s1 s2)
                 = (if retry_due E (trace s @ since s s1) org repo ''.github/renovate.json''
                    then [(''.github/renovate.json'', False), (''.github/renovate.json'', f2)]
                    else [(''.github/renovate.json'', f2)])"
      using e2 t1 by simp
    have "\<exists>f2'. content_checks E (trace s @ since s s1) (since s1 s2)
                 = (if retry_due E (trace s @ since s s1) org repo ''.github/renovate.json''
                    then [(''.github/renovate.json'', False), (''.github/renovate.json'', f2')]
                    else [(''.github/renovate.json'', f2')])
               \<and> allRepos' = (if f2' then allRepos @ [repo] else allRepos)"
      using e2' r(2) by blast
    note nested = this
    show ?thesis
      apply (rule exI [of _ "since s s1"], rule exI [of _ "since s1 s2"], rule exI [of _ False])
      using nested e1 False st(1) r(1) by simp
  qed
qed

text \<open>
  C6. The probe of a repository checks the root path \<open>renovate.json\<close> first (once, or
  twice when it retries after a rate-limit wait) and the nested path
  \<open>.github/renovate.json\<close> only after it; every check but the last one has failed, so
  the probe stops at the first check that succeeds, and the repository is recorded
  exactly when the last check succeeded. Exactly: the root path is checked once, and
  once more when the first check is one that is retried after a wait; when the last
  check of the root path succeeds the probe ends there, with the repository recorded and
  the nested path not checked; when it fails, whatever the failure, the nested path is
  checked in the same way, and the repository is recorded exactly when the last check of
  the nested path succeeds. In particular, when the first check succeeds the nested path
  is not checked, and when the root path answers 404 and the nested path succeeds the
  repository is recorded after these two checks.
\<close>

theorem probe_stops_at_first_match:
  assumes "check_paths E org repo paths (s, allRepos) = (s', allRepos')"
  shows "(\<exists>i j cs. content_checks E (trace s) (since s s') = cs
             \<and> (i = 1 \<or> i = 2) \<and> j \<le> 2
             \<and> map fst cs = replicate i ''renovate.json'' @ replicate j ''.github/renovate.json''
             \<and> (\<forall>k. Suc k < length cs \<longrightarrow> \<not> snd (cs ! k))
             \<and> cs \<noteq> []
             \<and> allRepos' = (if snd (last cs) then allRepos @ [repo] else allRepos))
       \<and> (\<exists>evs1 evs2 f1.
             since s s' = evs1 @ evs2
             \<and> content_checks E (trace s) evs1
                 = (if retry_due E (trace s) org repo ''renovate.json''
                    then [(''renovate.json'', False), (''renovate.json'', f1)]
                    else [(''renovate.json'', f1)])
             \<and> (if f1 then evs2 = [] \<and> allRepos' = allRepos @ [repo]
                else \<exists>f2. content_checks E (trace s @ evs1) evs2
                             = (if retry_due E (trace s @ evs1) org repo ''.github/renovate.json''
                                then [(''.github/renovate.json'', False), (''.github/renovate.json'', f2)]
                                else [(''.github/renovate.json'', f2)])
                           \<and> allRepos' = (if f2 then allRepos @ [repo] else allRepos)))
       \<and> (\<forall>c resp. Repositories_GetContents E (trace s) org (Name repo) ''renovate.json'' = (c, resp, None)
             \<longrightarrow> content_checks E (trace s) (since s s') = [(''renovate.json'', True)]
                 \<and> allRepos' = allRepos @ [repo])
       \<and> (\<forall>c r e c' resp'.
             Repositories_GetContents E (trace s) org (Name repo) ''renovate.json'' = (c, Some r, Some e)
             \<and> StatusCode r = 404
             \<and> Repositories_GetContents E (trace s @ [GetContents_call org (Name repo) ''renovate.json''])
                  org (Name repo) ''.github/renovate.json'' = (c', resp', None)
             \<longrightarrow> content_checks E (trace s) (since s s')
                   = [(''renovate.json'', False), (''.github/renovate.json'', True)]
                 \<and> allRepos' = allRepos @ [repo])"
proof (intro conjI allI impI)
  show "\<exists>i j cs. content_checks E (trace s) (since s s') = cs
             \<and> (i = 1 \<or> i = 2) \<and> j \<le> 2
             \<and> map fst cs = replicate i ''renovate.json'' @ replicate j ''.github/renovate.json''
             \<and> (\<forall>k. Suc k < length cs \<longrightarrow> \<not> snd (cs ! k))
             \<and> cs \<noteq> []
             \<and> allRepos' = (if snd (last cs) then allRepos @ [repo] else allRepos)"
    using check_paths_spec [OF assms] by simp
next
  show "\<exists>evs1 evs2 f1.
             since s s' = evs1 @ evs2
             \<and> content_checks E (trace s) evs1
                 = (if retry_due E (trace s) org repo ''renovate.json''
                    then [(''renovate.json'', False), (''renovate.json'', f1)]
                    else [(''renovate.json'', f1)])
             \<and> (if f1 then evs2 = [] \<and> allRepos' = allRepos @ [repo]
                else \<exists>f2. content_checks E (trace s @ evs1) evs2
                             = (if retry_due E (trace s @ evs1) org repo ''.github/renovate.json''
                                then [(''.github/renovate.json'', False), (''.github/renovate.json'', f2)]
                                else [(''.github/renovate.json'', f2)])
                           \<and> allRepos' = (if f2 then allRepos @ [repo] else allRepos))"
    by (rule check_paths_exact [OF assms])
next
  fix c resp
  assume a: "Repositories_GetContents E (trace s) org (Name repo) ''renovate.json'' = (c, resp, None)"
  have r: "s' = g_Log ''Found renovate.json in %s at %s'' [A_str (FullName repo), A_str ''renovate.json'']
                (emit (GetContents_call org (Name repo) ''renovate.json'') s)"
      "allRepos' = allRepos @ [repo]"
    using assms check_paths_first_found [OF a] by simp_all
  show "content_checks E (trace s) (since s s') = [(''renovate.json'', True)]"
    unfolding r using a by (simp add: since_def trace_g_Log trace_emit)
  show "allRepos' = allRepos @ [repo]" by (rule r(2))
next
  fix c r e c' resp'
  assume a: "Repositories_GetContents E (trace s) org (Name repo) ''renovate.json'' = (c, Some r, Some e)
             \<and> StatusCode r = 404
             \<and> Repositories_GetContents E (trace s @ [GetContents_call org (Name repo) ''renovate.json''])
                  org (Name repo) ''.github/renovate.json'' = (c', resp', None)"
  then have a1: "Repositories_GetContents E (trace s) org (Name repo) ''renovate.json'' = (c, Some r, Some e)"
    and a2: "StatusCode r = 404"
    and a3: "Repositories_GetContents E (trace s @ [GetContents_call org (Name repo) ''renovate.json''])
                  org (Name repo) ''.github/renovate.json'' = (c', resp', None)"
    by simp_all
  have r: "s' = g_Log ''Found renovate.json in %s at %s'' [A_str (FullName repo), A_str ''.github/renovate.json'']
                (emit (GetContents_call org (Name repo) ''.github/renovate.json'')
                   (emit (GetContents_call org (Name repo) ''renovate.json'') s))"
      "allRepos' = allRepos @ [repo]"
    using assms check_paths_nested_found [OF a1 a2 a3] by simp_all
  show "content_checks E (trace s) (since s s')
          = [(''renovate.json'', False), (''.github/renovate.json'', True)]"
    unfolding r using a1 a3 by (simp add: since_def trace_g_Log trace_emit)
  show "allRepos' = allRepos @ [repo]" by (rule r(2))
qed

theorem probe_stops_at_first_match_witness:
  "Repositories_GetContents acme (trace start) ''Acme'' (Name repoC) ''renovate.json''
     = (None, Some not_found_response, Some ''404 Not Found'')
   \<and> StatusCode not_found_response = 404
   \<and> Repositories_GetContents acme (trace start @ [GetContents_call ''Acme'' (Name repoC) ''renovate.json''])
        ''Acme'' (Name repoC) ''.github/renovate.json''
     = (Some \<lparr>GetContent = Inr ''extends config:base''\<rparr>, Some ok_response, None)
   \<and> content_checks acme (trace start)
        (since start (fst (check_paths acme ''Acme'' repoC paths (start, []))))
      = [(''renovate.json'', False), (''.github/renovate.json'', True)]
   \<and> snd (check_paths acme ''Acme'' repoC paths (start, [])) = [repoC]"
proof -
  have a1: "Repositories_GetContents acme (trace start) ''Acme'' (Name repoC) ''renovate.json''
     = (None, Some not_found_response, Some ''404 Not Found'')"
    by (simp add: acme_def repoC_def)
  have a2: "StatusCode not_found_response = 404"
    by (simp add: not_found_response_def)
  have a3: "Repositories_GetContents acme (trace start @ [GetContents_call ''Acme'' (Name repoC) ''renovate.json''])
        ''Acme'' (Name repoC) ''.github/renovate.json''
     = (Some \<lparr>GetContent = Inr ''extends config:base''\<rparr>, Some ok_response, None)"
    by (simp add: acme_def repoC_def)
  have run: "check_paths acme ''Acme'' repoC paths (start, [])
      = (fst (check_paths acme ''Acme'' repoC paths (start, [])),
         snd (check_paths acme ''Acme'' repoC paths (start, [])))"
    by simp
  note t = probe_stops_at_first_match [OF run]
  note t4 = t [THEN conjunct2, THEN conjunct2, THEN conjunct2]
  show ?thesis
    using t4 a1 a2 a3 by simp
qed

text \<open>
  A root path that fails with a server error, not with 404: the nested path is checked
  all the same, and the repository is recorded there.
\<close>

lemma probe_goes_on_after_server_error:
  "\<not> retry_due acme_error (trace start) ''Acme'' repoC ''renovate.json''
   \<and> content_checks acme_error (trace start)
        (since start (fst (check_paths acme_error ''Acme'' repoC paths (start, []))))
      = [(''renovate.json'', False), (''.github/renovate.json'', True)]
   \<and> snd (check_paths acme_error ''Acme'' repoC paths (start, [])) = [repoC]"
  by (simp add: paths_def check_path_def retry_due_def log_check_error_def acme_error_def acme_def
      error_response_def ok_response_def start_def repoC_def since_def g_Log_def emit_def Let_def)

lemma check_path_rate_limited:
  assumes "Repositories_GetContents E (trace s) org (Name repo) path = (c, Some r, Some e)"
    and "StatusCode r \<noteq> 404" and "Rate_Remaining r = 0"
    and "w = Rate_Reset r - time_Now E (trace s @ [GetContents_call org (Name repo) path])"
    and "0 < w"
    and "Repositories_GetContents E
           (trace s @ [GetContents_call org (Name repo) path,
                       Log ''Rate limit reached while checking files. Waiting %v until reset at %v''
                         [A_duration w, A_time (Rate_Reset r)],
                       Sleep w])
           org (Name repo) path = (c2, resp2, err2)"
  shows "check_path E org repo path s
           = (case err2 of
                None \<Rightarrow>
                  (g_Log ''Found renovate.json in %s at %s'' [A_str (FullName repo), A_str path]
                     (emit (GetContents_call org (Name repo) path)
                        (emit (Sleep w)
                           (g_Log ''Rate limit reached while checking files. Waiting %v until reset at %v''
                              [A_duration w, A_time (Rate_Reset r)]
                              (emit (GetContents_call org (Name repo) path) s)))), True)
              | Some e2 \<Rightarrow>
                  (log_check_error path repo e2
                     (emit (GetContents_call org (Name repo) path)
                        (emit (Sleep w)
                           (g_Log ''Rate limit reached while checking files. Waiting %v until reset at %v''
                              [A_duration w, A_time (Rate_Reset r)]
                              (emit (GetContents_call org (Name repo) path) s)))), False))"
  using assms by (simp add: check_path_def Let_def trace_emit trace_g_Log split: option.split)

text \<open>
  C7, as amended. When a content check fails with a response other than 404 that
  reports no remaining calls and a reset time in the future, the probe sleeps until the
  reset time and checks the same path once more, and no further time. When this second
  check succeeds the repository is recorded. When it fails, the error is logged unless
  its message mentions 404, and the probe goes on with the next candidate path from
  there: the repository is not given up, and nothing is returned to the crawl but the
  flag of a path that did not match.
\<close>

theorem rate_limited_check_retries_once:
  assumes "Repositories_GetContents E (trace s) org (Name repo) path = (c, Some r, Some e)"
    and "StatusCode r \<noteq> 404" and "Rate_Remaining r = 0"
    and "w = Rate_Reset r - time_Now E (trace s @ [GetContents_call org (Name repo) path])"
    and "0 < w"
    and "Repositories_GetContents E
           (trace s @ [GetContents_call org (Name repo) path,
                       Log ''Rate limit reached while checking files. Waiting %v until reset at %v''
                         [A_duration w, A_time (Rate_Reset r)],
                       Sleep w])
           org (Name repo) path = (c2, resp2, err2)"
    and "check_path E org repo path s = (s', found)"
  shows "found = (err2 = None)
       \<and> since s s'
           = [GetContents_call org (Name repo) path,
              Log ''Rate limit reached while checking files. Waiting %v until reset at %v''
                [A_duration w, A_time (Rate_Reset r)],
              Sleep w,
              GetContents_call org (Name repo) path]
             @ (case err2 of
                  None \<Rightarrow> [Log ''Found renovate.json in %s at %s'' [A_str (FullName repo), A_str path]]
                | Some e2 \<Rightarrow>
                    if strings_Contains e2 ''404'' then []
                    else [Log ''Error checking %s in %s: %v'' [A_str path, A_str (FullName repo), A_str e2]])
       \<and> content_checks E (trace s) (since s s') = [(path, False), (path, found)]
       \<and> check_paths E org repo (path # rest) (s, allRepos)
           = (if found then (s', allRepos @ [repo]) else check_paths E org repo rest (s', allRepos))"
proof -
  note cp = check_path_rate_limited [OF assms(1-6)]
  have f: "found = (err2 = None)"
    using assms(7) unfolding cp by (cases err2) auto
  have si: "since s s'
           = [GetContents_call org (Name repo) path,
              Log ''Rate limit reached while checking files. Waiting %v until reset at %v''
                [A_duration w, A_time (Rate_Reset r)],
              Sleep w,
              GetContents_call org (Name repo) path]
             @ (case err2 of
                  None \<Rightarrow> [Log ''Found renovate.json in %s at %s'' [A_str (FullName repo), A_str path]]
                | Some e2 \<Rightarrow>
                    if strings_Contains e2 ''404'' then []
                    else [Log ''Error checking %s in %s: %v'' [A_str path, A_str (FullName repo), A_str e2]])"
    using assms(7) unfolding cp
    by (cases err2) (auto simp: since_def trace_g_Log trace_emit log_check_error_def)
  have cc: "content_checks E (trace s) (since s s') = [(path, False), (path, found)]"
    unfolding si using assms(1,6) f by (cases err2) simp_all
  have cps: "check_paths E org repo (path # rest) (s, allRepos)
           = (if found then (s', allRepos @ [repo]) else check_paths E org repo rest (s', allRepos))"
    using assms(7) by simp
  show ?thesis using f si cc cps by blast
qed

theorem rate_limited_check_retries_once_witness:
  "Repositories_GetContents acme_limited (trace start) ''Acme'' (Name repoB) ''renovate.json''
     = (None, Some limited_response, Some ''403 API rate limit exceeded'')
   \<and> StatusCode limited_response \<noteq> 404 \<and> Rate_Remaining limited_response = 0
   \<and> Rate_Reset limited_response
        - time_Now acme_limited (trace start @ [GetContents_call ''Acme'' (Name repoB) ''renovate.json'']) = 3600
   \<and> Repositories_GetContents acme_limited
           (trace start @ [GetContents_call ''Acme'' (Name repoB) ''renovate.json'',
                       Log ''Rate limit reached while checking files. Waiting %v until reset at %v''
                         [A_duration 3600, A_time (Rate_Reset limited_response)],
                       Sleep 3600])
           ''Acme'' (Name repoB) ''renovate.json''
       = (Some \<lparr>GetContent = Inr ''extends github>MyOrg/lib''\<rparr>, Some ok_response, None)
   \<and> snd (check_path acme_limited ''Acme'' repoB ''renovate.json'' start)
   \<and> content_checks acme_limited (trace start)
        (since start (fst (check_path acme_limited ''Acme'' repoB ''renovate.json'' start)))
       = [(''renovate.json'', False), (''renovate.json'', True)]"
proof -
  have a1: "Repositories_GetContents acme_limited (trace start) ''Acme'' (Name repoB) ''renovate.json''
     = (None, Some limited_response, Some ''403 API rate limit exceeded'')"
    by (simp add: acme_limited_def acme_def start_def)
  have a2: "StatusCode limited_response \<noteq> 404" and a3: "Rate_Remaining limited_response = 0"
    by (simp_all add: limited_response_def)
  have a4: "3600 = Rate_Reset limited_response
        - time_Now acme_limited (trace start @ [GetContents_call ''Acme'' (Name repoB) ''renovate.json''])"
    by (simp add: acme_limited_def acme_def limited_response_def)
  have a5: "(0::int) < 3600" by simp
  have a6: "Repositories_GetContents acme_limited
           (trace start @ [GetContents_call ''Acme'' (Name repoB) ''renovate.json'',
                       Log ''Rate limit reached while checking files. Waiting %v until reset at %v''
                         [A_duration 3600, A_time (Rate_Reset limited_response)],
                       Sleep 3600])
           ''Acme'' (Name repoB) ''renovate.json''
       = (Some \<lparr>GetContent = Inr ''extends github>MyOrg/lib''\<rparr>, Some ok_response, None)"
    by (simp add: acme_limited_def acme_def start_def repoB_def)
  have run: "check_path acme_limited ''Acme'' repoB ''renovate.json'' start
      = (fst (check_path acme_limited ''Acme'' repoB ''renovate.json'' start),
         snd (check_path acme_limited ''Acme'' repoB ''renovate.json'' start))"
    by simp
  show ?thesis
    using rate_limited_check_retries_once [OF a1 a2 a3 a4 a5 a6 run] a1 a2 a3 a4 a6 by simp
qed

text \<open>
  The claim as it was stated fails where it says that the repository is skipped with a
  logged diagnostic. In the world with the exhausted rate limit, the first check of the
  root path of \<open>C\<close> is refused, the check after the sleep fails too (404: the file is at
  the nested path), and yet the probe goes on to the nested path and records \<open>C\<close>;
  nothing is logged about the failed retry.
\<close>

theorem retry_failure_counterexample:
  "Repositories_GetContents acme_limited [] ''Acme'' ''C'' ''renovate.json''
     = (None, Some limited_response, Some ''403 API rate limit exceeded'')
   \<and> Repositories_GetContents acme_limited
        [GetContents_call ''Acme'' ''C'' ''renovate.json'',
         Log ''Rate limit reached while checking files. Waiting %v until reset at %v''
           [A_duration 3600, A_time 3600],
         Sleep 3600] ''Acme'' ''C'' ''renovate.json''
     = (None, Some not_found_response, Some ''404 Not Found'')
   \<and> check_paths acme_limited ''Acme'' repoC paths (start, [])
     = (\<lparr>trace =
           [GetContents_call ''Acme'' ''C'' ''renovate.json'',
            Log ''Rate limit reached while checking files. Waiting %v until reset at %v''
              [A_duration 3600, A_time 3600],
            Sleep 3600,
            GetContents_call ''Acme'' ''C'' ''renovate.json'',
            GetContents_call ''Acme'' ''C'' ''.github/renovate.json'',
            Log ''Found renovate.json in %s at %s'' [A_str ''Acme/C'', A_str ''.github/renovate.json'']],
          dirs = {}\<rparr>,
        [repoC])"
  by (simp add: acme_limited_def acme_def start_def repoC_def paths_def check_path_def
      limited_response_def not_found_response_def ok_response_def log_check_error_def
      g_Log_def emit_def Let_def)

section \<open>The crawl\<close>

lemma probe_no_list_calls: "list_all probe_event evs \<Longrightarrow> list_calls evs = []"
proof (induction evs)
  case Nil
  then show ?case by (simp add: list_calls_def)
next
  case (Cons e evs)
  then show ?case by (cases e) (simp_all add: list_calls_def)
qed

lemma check_path_calls:
  assumes "check_path E org repo p s = (s', found)"
  shows "(org, Name repo, p) \<in> set (contents_calls (since s s'))"
  using assms
  by (auto simp: check_path_def Let_def log_check_error_def since_def trace_g_Log trace_emit
      contents_calls_def split: prod.splits option.splits if_splits)

lemma check_paths_root_call:
  assumes "check_paths E org repo paths (s, allRepos) = (s', allRepos')"
  shows "(org, Name repo, ''renovate.json'') \<in> set (contents_calls (since s s'))"
proof -
  obtain s1 f1 where c1: "check_path E org repo ''renovate.json'' s = (s1, f1)"
    by (cases "check_path E org repo ''renovate.json'' s")
  have m: "(org, Name repo, ''renovate.json'') \<in> set (contents_calls (since s s1))"
    using c1 by (rule check_path_calls)
  have t1: "trace s1 = trace s @ since s s1" using check_path_spec [OF c1] by simp
  show ?thesis
  proof (cases f1)
    case True
    then have "s' = s1" using assms c1 by (simp add: paths_def)
    then show ?thesis using m by simp
  next
    case False
    obtain s2 f2 where c2: "check_path E org repo ''.github/renovate.json'' s1 = (s2, f2)"
      by (cases "check_path E org repo ''.github/renovate.json'' s1")
    have t2: "trace s2 = trace s1 @ since s1 s2" using check_path_spec [OF c2] by simp
    have "s' = s2" using assms c1 c2 False by (auto simp: paths_def split: bool.splits)
    then have "since s s' = since s s1 @ since s1 s2" using since_trans(1) [OF t1 t2] by simp
    then show ?thesis using m by (simp add: contents_calls_def)
  qed
qed

lemma check_repos_spec:
  assumes "check_repos E org repos (s, allRepos) = (s', allRepos')"
  shows "trace s' = trace s @ since s s'
       \<and> list_all probe_event (since s s')
       \<and> (\<exists>found. allRepos' = allRepos @ found \<and> subseq found repos)
       \<and> (\<forall>repo \<in> set repos. (org, Name repo, ''renovate.json'') \<in> set (contents_calls (since s s')))"
  using assms
proof (induction repos arbitrary: s allRepos)
  case Nil
  then show ?case by (simp add: since_def)
next
  case (Cons repo repos)
  obtain s1 a1 where c: "check_paths E org repo paths (s, allRepos) = (s1, a1)"
    by (cases "check_paths E org repo paths (s, allRepos)")
  from check_paths_spec [OF c]
  have t1: "trace s1 = trace s @ since s s1" and p1: "list_all probe_event (since s s1)"
    and a1: "a1 = allRepos @ [repo] \<or> a1 = allRepos"
    by (auto split: if_splits)
  have r1: "(org, Name repo, ''renovate.json'') \<in> set (contents_calls (since s s1))"
    using c by (rule check_paths_root_call)
  have rest: "check_repos E org repos (s1, a1) = (s', allRepos')"
    using Cons.prems c by simp
  from Cons.IH [OF rest]
  have t2: "trace s' = trace s1 @ since s1 s'" and p2: "list_all probe_event (since s1 s')"
    and f2: "\<exists>found. allRepos' = a1 @ found \<and> subseq found repos"
    and r2: "\<forall>repo \<in> set repos. (org, Name repo, ''renovate.json'') \<in> set (contents_calls (since s1 s'))"
    by simp_all
  note st = since_trans [OF t1 t2]
  from f2 obtain found where found: "allRepos' = a1 @ found" "subseq found repos" by blast
  have "\<exists>found. allRepos' = allRepos @ found \<and> subseq found (repo # repos)"
  proof (cases "a1 = allRepos")
    case True
    then have "allRepos' = allRepos @ found" using found(1) by simp
    moreover have "subseq found (repo # repos)" using found(2) by (rule list_emb_Cons)
    ultimately show ?thesis by blast
  next
    case False
    then have "allRepos' = allRepos @ (repo # found)" using a1 found(1) by simp
    moreover have "subseq (repo # found) (repo # repos)" using found(2) by simp
    ultimately show ?thesis by blast
  qed
  moreover have "list_all probe_event (since s s')" unfolding st(1) using p1 p2 by simp
  moreover have "\<forall>r \<in> set (repo # repos). (org, Name r, ''renovate.json'') \<in> set (contents_calls (since s s'))"
    unfolding st(1) using r1 r2 by (simp add: contents_calls_def)
  ultimately show ?case using st(2) by blast
qed



lemma list_calls_logs: "list_all is_log evs \<Longrightarrow> list_calls evs = []"
proof (induction evs)
  case Nil
  then show ?case by (simp add: list_calls_def)
next
  case (Cons e evs)
  then show ?case by (cases e) (simp_all add: list_calls_def)
qed

lemma page_step_spec:
  "case page_step E org page s allRepos of
     Return (s', res) \<Rightarrow>
       \<exists>allRepos'. iteration_ok E org page s allRepos s' allRepos'
          \<and> (\<forall>result. res = Inr result \<longrightarrow> result = allRepos')
   | Continue p s' allRepos' \<Rightarrow>
       iteration_ok E org page s allRepos s' allRepos' \<and> p = next_cursor E (trace s) org page"
proof -
  obtain repos resp err where reply: "Repositories_ListByOrg E (trace s) org page = (repos, resp, err)"
    by (cases "Repositories_ListByOrg E (trace s) org page")
  let ?c = "ListByOrg_call org page"
  let ?l1 = "Log ''Found %d repositories in org (page %d)'' [A_int (int (length repos)), A_int page]"
  show ?thesis
  proof (cases err)
    case (Some e)
    have k: "kept_repos E (trace s) org page = []" using reply Some by (simp add: kept_repos_def)
    have "\<exists>evs. trace (log_list_error resp e (emit ?c s)) = trace s @ ?c # evs \<and> list_calls evs = []"
      by (cases resp) (simp_all add: log_list_error_def trace_g_Log trace_emit list_calls_def)
    then have "iteration_ok E org page s allRepos (log_list_error resp e (emit ?c s)) allRepos"
      unfolding iteration_ok_def k by auto
    then show ?thesis using reply Some by (auto simp: page_step_def)
  next
    case None
    let ?s1 = "g_Log ''Found %d repositories in org (page %d)'' [A_int (int (length repos)), A_int page]
                 (emit ?c s)"
    show ?thesis
    proof (cases resp)
      case n: None
      have k: "kept_repos E (trace s) org page = repos"
        using reply None n by (simp add: kept_repos_def suspends_def)
      obtain s2 a2 where c: "check_repos E org repos (?s1, allRepos) = (s2, a2)"
        by (cases "check_repos E org repos (?s1, allRepos)")
      from check_repos_spec [OF c]
      have t: "trace s2 = trace ?s1 @ since ?s1 s2" and p: "list_all probe_event (since ?s1 s2)"
        and f: "\<exists>found. a2 = allRepos @ found \<and> subseq found repos"
        and r: "\<forall>repo \<in> set repos. (org, Name repo, ''renovate.json'') \<in> set (contents_calls (since ?s1 s2))"
        by simp_all
      have "trace s2 = trace s @ ?c # (?l1 # since ?s1 s2)"
        using t by (simp add: trace_g_Log trace_emit)
      moreover have "list_calls (?l1 # since ?s1 s2) = []"
        using probe_no_list_calls [OF p] by (simp add: list_calls_def)
      moreover have "\<forall>repo \<in> set repos. (org, Name repo, ''renovate.json'')
                        \<in> set (contents_calls (?l1 # since ?s1 s2))"
        using r by (simp add: contents_calls_def)
      ultimately have "iteration_ok E org page s allRepos s2 a2"
        unfolding iteration_ok_def k using f by blast
      then show ?thesis using reply None n c by (auto simp: page_step_def)
    next
      case (Some r)
      let ?l2 = "Log ''Rate limit: %d/%d remaining'' [A_int (Rate_Remaining r), A_int (Rate_Limit r)]"
      let ?s2 = "g_Log ''Rate limit: %d/%d remaining'' [A_int (Rate_Remaining r), A_int (Rate_Limit r)] ?s1"
      let ?s3 = "if Rate_Remaining r < 100
                 then g_Log ''Approaching rate limit. Remaining: %d'' [A_int (Rate_Remaining r)] ?s2
                 else ?s2"
      have t3: "trace ?s3 = after_reply (trace s) org page repos r"
        by (simp add: after_reply_def trace_g_Log trace_emit)
      have "\<exists>logs. trace ?s3 = trace s @ ?c # logs \<and> list_all is_log logs"
        by (cases "Rate_Remaining r < 100") (simp_all add: trace_g_Log trace_emit)
      then obtain logs where logs: "trace ?s3 = trace s @ ?c # logs" "list_all is_log logs"
        by blast
      have reply': "Repositories_ListByOrg E (trace s) org page = (repos, Some r, None)"
        using reply None Some by simp
      have ps: "page_step E org page s allRepos
          = (if Rate_Remaining r = 0 \<and> 0 < Rate_Reset r - time_Now E (trace ?s3)
             then Continue page
                    (emit (Sleep (Rate_Reset r - time_Now E (trace ?s3)))
                       (g_Log ''Rate limit reached. Waiting %v until reset at %v''
                          [A_duration (Rate_Reset r - time_Now E (trace ?s3)), A_time (Rate_Reset r)] ?s3))
                    allRepos
             else (case check_repos E org repos (?s3, allRepos) of
                     (s', allRepos') \<Rightarrow>
                       if NextPage r = 0
                       then Return (g_Log ''Total repositories with renovate.json found: %d''
                                      [A_int (int (length allRepos'))] s', Inr allRepos')
                       else Continue (NextPage r) s' allRepos'))"
        by (simp only: page_step_def Let_def reply' prod.case option.case)
      show ?thesis
      proof (cases "Rate_Remaining r = 0 \<and> 0 < Rate_Reset r - time_Now E (trace ?s3)")
        case True
        let ?w = "Rate_Reset r - time_Now E (trace ?s3)"
        let ?s4 = "emit (Sleep ?w)
                     (g_Log ''Rate limit reached. Waiting %v until reset at %v''
                        [A_duration ?w, A_time (Rate_Reset r)] ?s3)"
        have sus: "suspends E (trace s) org page"
          using reply None Some True unfolding t3 by (simp add: suspends_def)
        have k: "kept_repos E (trace s) org page = []"
          using reply None sus by (simp add: kept_repos_def)
        have n: "next_cursor E (trace s) org page = page"
          using reply None Some sus by (simp add: next_cursor_def)
        have "trace ?s4 = trace s @ ?c # (logs @ [Log ''Rate limit reached. Waiting %v until reset at %v''
                        [A_duration ?w, A_time (Rate_Reset r)], Sleep ?w])"
          using logs(1) by (simp add: trace_g_Log trace_emit)
        moreover have "list_calls (logs @ [Log ''Rate limit reached. Waiting %v until reset at %v''
                        [A_duration ?w, A_time (Rate_Reset r)], Sleep ?w]) = []"
          using list_calls_logs [OF logs(2)] by (simp add: list_calls_def)
        ultimately have "iteration_ok E org page s allRepos ?s4 allRepos"
          unfolding iteration_ok_def k by auto
        moreover have "page_step E org page s allRepos = Continue page ?s4 allRepos"
          unfolding ps by (simp only: if_P [OF True])
        ultimately show ?thesis using n by simp
      next
        case False
        have sus: "\<not> suspends E (trace s) org page"
          using reply None Some False unfolding t3 by (simp add: suspends_def)
        have k: "kept_repos E (trace s) org page = repos"
          using reply None sus by (simp add: kept_repos_def)
        have n: "next_cursor E (trace s) org page = NextPage r"
          using reply None Some sus by (simp add: next_cursor_def)
        obtain s4 a4 where c: "check_repos E org repos (?s3, allRepos) = (s4, a4)"
          by (cases "check_repos E org repos (?s3, allRepos)")
        from check_repos_spec [OF c]
        have t: "trace s4 = trace ?s3 @ since ?s3 s4" and p: "list_all probe_event (since ?s3 s4)"
          and f: "\<exists>found. a4 = allRepos @ found \<and> subseq found repos"
          and rr: "\<forall>repo \<in> set repos. (org, Name repo, ''renovate.json'') \<in> set (contents_calls (since ?s3 s4))"
          by simp_all
        have tr4: "trace s4 = trace s @ ?c # (logs @ since ?s3 s4)"
          using t logs(1) by simp
        have lc4: "list_calls (logs @ since ?s3 s4) = []"
          using probe_no_list_calls [OF p] list_calls_logs [OF logs(2)] by (simp add: list_calls_def)
        have cc4: "\<forall>repo \<in> set repos. (org, Name repo, ''renovate.json'')
                        \<in> set (contents_calls (logs @ since ?s3 s4))"
          using rr by (simp add: contents_calls_def)
        have ok4: "iteration_ok E org page s allRepos s4 a4"
          unfolding iteration_ok_def k using tr4 lc4 cc4 f by blast
        show ?thesis
        proof (cases "NextPage r = 0")
          case z: True
          let ?lt = "Log ''Total repositories with renovate.json found: %d'' [A_int (int (length a4))]"
          let ?s5 = "g_Log ''Total repositories with renovate.json found: %d'' [A_int (int (length a4))] s4"
          have "trace ?s5 = trace s @ ?c # ((logs @ since ?s3 s4) @ [?lt])"
            using tr4 by (simp add: trace_g_Log)
          moreover have "list_calls ((logs @ since ?s3 s4) @ [?lt]) = []"
            using lc4 by (simp add: list_calls_def)
          moreover have "\<forall>repo \<in> set repos. (org, Name repo, ''renovate.json'')
                        \<in> set (contents_calls ((logs @ since ?s3 s4) @ [?lt]))"
            using cc4 by (simp add: contents_calls_def)
          ultimately have "iteration_ok E org page s allRepos ?s5 a4"
            unfolding iteration_ok_def k using f by blast
          moreover have "page_step E org page s allRepos = Return (?s5, Inr a4)"
            unfolding ps by (simp only: if_not_P [OF False] c prod.case if_P [OF z])
          ultimately show ?thesis by auto
        next
          case nz: False
          have "page_step E org page s allRepos = Continue (NextPage r) s4 a4"
            unfolding ps by (simp only: if_not_P [OF False] c prod.case if_not_P [OF nz])
          then show ?thesis using ok4 n by simp
        qed
      qed
    qed
  qed
qed
















lemma list_calls_append: "list_calls (xs @ ys) = list_calls xs @ list_calls ys"
  by (simp add: list_calls_def)

lemma page_step_kept:
  assumes "Repositories_ListByOrg E (trace s) org page = (repos, Some r, None)"
    and "Rate_Remaining r \<noteq> 0"
  shows "\<exists>s1 a1. iteration_ok E org page s allRepos s1 a1
           \<and> page_step E org page s allRepos
               = (if NextPage r = 0 then Return (s1, Inr a1) else Continue (NextPage r) s1 a1)"
proof -
  let ?s3 = "let s = g_Log ''Rate limit: %d/%d remaining'' [A_int (Rate_Remaining r), A_int (Rate_Limit r)]
                (g_Log ''Found %d repositories in org (page %d)'' [A_int (int (length repos)), A_int page]
                   (emit (ListByOrg_call org page) s))
             in if Rate_Remaining r < 100
                then g_Log ''Approaching rate limit. Remaining: %d'' [A_int (Rate_Remaining r)] s
                else s"
  obtain s4 a4 where c: "check_repos E org repos (?s3, allRepos) = (s4, a4)"
    by (cases "check_repos E org repos (?s3, allRepos)")
  have ps: "page_step E org page s allRepos
      = (if NextPage r = 0
         then Return (g_Log ''Total repositories with renovate.json found: %d''
                        [A_int (int (length a4))] s4, Inr a4)
         else Continue (NextPage r) s4 a4)"
    using assms c by (simp add: page_step_def Let_def)
  note spec = page_step_spec [of E org page s allRepos]
  show ?thesis
  proof (cases "NextPage r = 0")
    case True
    then have "page_step E org page s allRepos
        = Return (g_Log ''Total repositories with renovate.json found: %d''
                        [A_int (int (length a4))] s4, Inr a4)"
      using ps by simp
    moreover from this spec
    have "iteration_ok E org page s allRepos
            (g_Log ''Total repositories with renovate.json found: %d'' [A_int (int (length a4))] s4) a4"
      by simp
    ultimately show ?thesis using True by auto
  next
    case False
    then have "page_step E org page s allRepos = Continue (NextPage r) s4 a4"
      using ps by simp
    moreover from this spec have "iteration_ok E org page s allRepos s4 a4" by simp
    ultimately show ?thesis using False by auto
  qed
qed

lemma page_loop_paged:
  assumes "paged pages"
    and "\<forall>k<length pages. \<forall>tr. length (list_calls tr) = length (list_calls (trace s)) + k \<longrightarrow>
           Repositories_ListByOrg E tr org (page_cursors page pages ! k) = pages ! k"
  shows "\<exists>s' found. page_loop E org page s allRepos = Some (s', Inr found)
           \<and> trace s' = trace s @ since s s'
           \<and> list_calls (since s s') = map (Pair org) (page_cursors page pages)"
  using assms
proof (induction pages arbitrary: s page allRepos)
  case Nil
  then show ?case by simp
next
  case (Cons reply rest)
  obtain repos resp err where reply: "reply = (repos, resp, err)" by (cases reply)
  from Cons.prems(1) reply obtain r where r: "resp = Some r" "err = None" "Rate_Remaining r \<noteq> 0"
    and last: "if NextPage r = 0 then rest = [] else paged rest"
    by (auto split: option.splits)
  have "Repositories_ListByOrg E (trace s) org (page_cursors page (reply # rest) ! 0) = (reply # rest) ! 0"
    using Cons.prems(2) by (metis add.right_neutral length_greater_0_conv list.distinct(1))
  then have ans0: "Repositories_ListByOrg E (trace s) org page = (repos, Some r, None)"
    using reply r by simp
  from page_step_kept [OF ans0 r(3), of allRepos]
  obtain s1 a1 where ok: "iteration_ok E org page s allRepos s1 a1"
    and ps: "page_step E org page s allRepos
               = (if NextPage r = 0 then Return (s1, Inr a1) else Continue (NextPage r) s1 a1)"
    by blast
  from ok obtain evs where evs: "trace s1 = trace s @ ListByOrg_call org page # evs" "list_calls evs = []"
    unfolding iteration_ok_def by blast
  have lc1: "list_calls (ListByOrg_call org page # evs) = [(org, page)]"
    using evs(2) by (simp add: list_calls_def)
  show ?case
  proof (cases "NextPage r = 0")
    case True
    then have rest: "rest = []" using last by simp
    have "page_loop E org page s allRepos = Some (s1, Inr a1)"
      by (subst page_loop.simps) (simp add: ps True)
    moreover have "since s s1 = ListByOrg_call org page # evs" using evs(1) by (rule since_append)
    ultimately show ?thesis using evs(1) lc1 rest reply by simp
  next
    case False
    then have pr: "paged rest" using last by simp
    have n1: "length (list_calls (trace s1)) = Suc (length (list_calls (trace s)))"
      unfolding evs(1) list_calls_append lc1 by simp
    have ans: "\<forall>k<length rest. \<forall>tr. length (list_calls tr) = length (list_calls (trace s1)) + k \<longrightarrow>
           Repositories_ListByOrg E tr org (page_cursors (NextPage r) rest ! k) = rest ! k"
    proof (intro allI impI)
      fix k tr
      assume k: "k < length rest" and tr: "length (list_calls tr) = length (list_calls (trace s1)) + k"
      have "Suc k < length (reply # rest)" using k by simp
      moreover have "length (list_calls tr) = length (list_calls (trace s)) + Suc k"
        using tr n1 by simp
      ultimately have "Repositories_ListByOrg E tr org (page_cursors page (reply # rest) ! Suc k)
                         = (reply # rest) ! Suc k"
        using Cons.prems(2) by blast
      then show "Repositories_ListByOrg E tr org (page_cursors (NextPage r) rest ! k) = rest ! k"
        using reply r by simp
    qed
    from Cons.IH [OF pr ans, of a1]
    obtain s' found where run: "page_loop E org (NextPage r) s1 a1 = Some (s', Inr found)"
      and t: "trace s' = trace s1 @ since s1 s'"
      and lc: "list_calls (since s1 s') = map (Pair org) (page_cursors (NextPage r) rest)"
      by blast
    have "page_loop E org page s allRepos = Some (s', Inr found)"
      by (subst page_loop.simps) (simp add: ps False run)
    moreover have tr: "trace s' = trace s @ ((ListByOrg_call org page # evs) @ since s1 s')"
      using t evs(1) by simp
    moreover have "since s s' = (ListByOrg_call org page # evs) @ since s1 s'"
      using tr by (rule since_append)
    moreover have "list_calls ((ListByOrg_call org page # evs) @ since s1 s')
                     = map (Pair org) (page_cursors page (reply # rest))"
      unfolding list_calls_append lc1 lc using reply r by simp
    ultimately show ?thesis by simp
  qed
qed

text \<open>
  C8. When the page requests of the crawl are answered, in their order, by a sequence of
  pages of which only the last reports the next-page cursor 0 and none reports an
  exhausted rate limit, the crawl returns a list, and it has made exactly as many page
  requests as there are pages: one with the cursor 0 and one with the next-page cursor of
  every page but the last.
\<close>

theorem pagination_terminates:
  assumes "paged pages"
    and "\<forall>k<length pages. \<forall>tr. length (list_calls tr) = length (list_calls (trace s)) + k \<longrightarrow>
           Repositories_ListByOrg E tr org (page_cursors 0 pages ! k) = pages ! k"
  shows "\<exists>s' found. FindReposWithRenovate E org s = Some (s', Inr found)
           \<and> list_calls (since s s') = map (Pair org) (page_cursors 0 pages)
           \<and> length (list_calls (since s s')) = length pages"
proof -
  let ?l = "Log ''Finding repositories with renovate.json for org: %s'' [A_str org]"
  let ?s0 = "g_Log ''Finding repositories with renovate.json for org: %s'' [A_str org] s"
  have n: "length (list_calls (trace ?s0)) = length (list_calls (trace s))"
    by (simp add: trace_g_Log list_calls_def)
  have ans: "\<forall>k<length pages. \<forall>tr. length (list_calls tr) = length (list_calls (trace ?s0)) + k \<longrightarrow>
           Repositories_ListByOrg E tr org (page_cursors 0 pages ! k) = pages ! k"
    unfolding n by (rule assms(2))
  from page_loop_paged [OF assms(1) ans, of "[]"]
  obtain s' found where run: "page_loop E org 0 ?s0 [] = Some (s', Inr found)"
    and t: "trace s' = trace ?s0 @ since ?s0 s'"
    and lc: "list_calls (since ?s0 s') = map (Pair org) (page_cursors 0 pages)"
    by blast
  have "trace s' = trace s @ (?l # since ?s0 s')" using t by (simp add: trace_g_Log)
  then have si: "since s s' = ?l # since ?s0 s'" by (rule since_append)
  have lc': "list_calls (since s s') = map (Pair org) (page_cursors 0 pages)"
    unfolding si using lc by (simp add: list_calls_def)
  have len: "length (page_cursors page ps) = length ps" for page ps
    by (induction ps arbitrary: page) auto
  show ?thesis
    using run lc' len by (auto simp: FindReposWithRenovate_def)
qed

theorem pagination_terminates_witness:
  "paged [first_page, second_page]
   \<and> page_cursors 0 [first_page, second_page] = [0, 2]
   \<and> Repositories_ListByOrg acme_two_pages (trace start) ''Acme'' 0 = first_page
   \<and> Repositories_ListByOrg acme_two_pages (trace start @ [ListByOrg_call ''Acme'' 0]) ''Acme'' 2
       = second_page
   \<and> (\<exists>s' found. FindReposWithRenovate acme_two_pages ''Acme'' start = Some (s', Inr found)
           \<and> list_calls (since start s') = [(''Acme'', 0), (''Acme'', 2)]
           \<and> length (list_calls (since start s')) = 2)"
proof -
  have p: "paged [first_page, second_page]"
    by (simp add: first_page_def second_page_def ok_response_def)
  have c: "page_cursors 0 [first_page, second_page] = [0, 2]"
    by (simp add: first_page_def second_page_def ok_response_def)
  have a: "\<forall>k<length [first_page, second_page]. \<forall>tr.
         length (list_calls tr) = length (list_calls (trace start)) + k \<longrightarrow>
         Repositories_ListByOrg acme_two_pages tr ''Acme'' (page_cursors 0 [first_page, second_page] ! k)
           = [first_page, second_page] ! k"
    unfolding c by (auto simp: acme_two_pages_def acme_def less_Suc_eq)
  have r: "Repositories_ListByOrg acme_two_pages (trace start) ''Acme'' 0 = first_page"
    "Repositories_ListByOrg acme_two_pages (trace start @ [ListByOrg_call ''Acme'' 0]) ''Acme'' 2
       = second_page"
    by (simp_all add: acme_two_pages_def acme_def)
  show ?thesis
    using pagination_terminates [OF p a] p r c unfolding c by (simp add: numeral_2_eq_2)
qed

section \<open>The whole run\<close>

lemma open_pull_request_no_panic: "snd (open_pull_request E repo s) \<noteq> Panic"
  by (simp add: open_pull_request_def Let_def split: prod.split option.split)

lemma publish_no_panic: "snd (publish E repo dry key new s) \<noteq> Panic"
  by (simp add: publish_def Let_def open_pull_request_no_panic split: prod.split option.split)

lemma CheckAndUpdate_no_panic:
  assumes "\<forall>tr owner name path c resp.
             Repositories_GetContents E tr owner name path = (c, resp, None) \<longrightarrow> c \<noteq> None"
  shows "snd (CheckAndUpdateRenovateConfig E s repo dry key) \<noteq> Panic"
proof -
  obtain c resp err where g: "Repositories_GetContents E (before_fetch s repo) (Owner_Login repo) (Name repo)
      ''renovate.json'' = (c, resp, err)"
    by (cases "Repositories_GetContents E (before_fetch s repo) (Owner_Login repo) (Name repo) ''renovate.json''")
  show ?thesis
  proof (cases err)
    case (Some e)
    then show ?thesis using CheckAndUpdate_fetch_failed [of E s repo c resp e dry key] g by simp
  next
    case None
    then have "c \<noteq> None" using assms g by blast
    then obtain y where y: "c = Some y" by blast
    show ?thesis
    proof (cases "GetContent y")
      case (Inl e)
      then show ?thesis using g None y
        by (simp add: CheckAndUpdateRenovateConfig_def before_fetch_def trace_g_Log Let_def)
    next
      case (Inr contentStr)
      then show ?thesis using g None y
        by (cases "strings_Contains contentStr marker")
           (simp_all add: CheckAndUpdateRenovateConfig_def before_fetch_def trace_g_Log Let_def
              publish_no_panic)
    qed
  qed
qed

lemma CheckAndUpdate_trace:
  "trace (fst (CheckAndUpdateRenovateConfig E s repo dry key))
     = trace s @ since s (fst (CheckAndUpdateRenovateConfig E s repo dry key))"
proof -
  from CheckAndUpdate_grows [of repo s E dry key]
  obtain evs where "trace (fst (CheckAndUpdateRenovateConfig E s repo dry key))
      = trace s @ ([Log ''Starting to check and update renovate config for repository: %s'' [A_str (FullName repo)],
             Log ''Getting renovate.json content'' [],
             GetContents_call (Owner_Login repo) (Name repo) ''renovate.json''] @ evs)"
    by (auto simp: grows_def trace_emit trace_g_Log)
  then show ?thesis by (simp add: since_def)
qed

lemma contents_calls_append: "contents_calls (xs @ ys) = contents_calls xs @ contents_calls ys"
  by (simp add: contents_calls_def)

lemma process_repos_spec:
  assumes "process_repos E dry key repos s = (s', x)"
  shows "trace s' = trace s @ since s s'
       \<and> (x = Returned \<or> x = Panicked)
       \<and> (x = Returned \<longrightarrow>
            contents_calls (since s s') = map (\<lambda>r. (Owner_Login r, Name r, ''renovate.json'')) repos)
       \<and> ((\<forall>tr owner name path c resp.
              Repositories_GetContents E tr owner name path = (c, resp, None) \<longrightarrow> c \<noteq> None)
            \<longrightarrow> x = Returned)"
  using assms
proof (induction repos arbitrary: s)
  case Nil
  then show ?case by (simp add: since_def contents_calls_def)
next
  case (Cons repo repos)
  let ?l = "Log ''Processing repository: %s'' [A_str (FullName repo)]"
  let ?s0 = "g_Log ''Processing repository: %s'' [A_str (FullName repo)] s"
  obtain s1 r where c: "CheckAndUpdateRenovateConfig E ?s0 repo dry key = (s1, r)"
    by (cases "CheckAndUpdateRenovateConfig E ?s0 repo dry key")
  have t1: "trace s1 = trace ?s0 @ since ?s0 s1"
    using CheckAndUpdate_trace [of E ?s0 repo dry key] c by simp
  have c1: "contents_calls (since ?s0 s1) = [(Owner_Login repo, Name repo, ''renovate.json'')]"
    using CheckAndUpdate_contents_calls [of ?s0 E repo dry key] c by simp
  have np: "(\<forall>tr owner name path c resp.
              Repositories_GetContents E tr owner name path = (c, resp, None) \<longrightarrow> c \<noteq> None)
            \<longrightarrow> r \<noteq> Panic"
    using CheckAndUpdate_no_panic [of E ?s0 repo dry key] c by auto
  have ts: "trace s1 = trace s @ (?l # since ?s0 s1)" using t1 by (simp add: trace_g_Log)
  show ?case
  proof (cases r)
    case Panic
    then have r: "s' = s1" "x = Panicked" using Cons.prems c by simp_all
    have "since s s1 = ?l # since ?s0 s1" using ts by (rule since_append)
    then show ?thesis using r ts np Panic by simp
  next
    case Success
    then have rest: "process_repos E dry key repos s1 = (s', x)" using Cons.prems c by simp
    note ih = Cons.IH [OF rest]
    have tr: "trace s' = trace s @ ((?l # since ?s0 s1) @ since s1 s')" using ih ts by simp
    have si: "since s s' = (?l # since ?s0 s1) @ since s1 s'" using tr by (rule since_append)
    have "contents_calls (?l # since ?s0 s1) = [(Owner_Login repo, Name repo, ''renovate.json'')]"
      using c1 by (simp add: contents_calls_def)
    then show ?thesis unfolding si contents_calls_append using ih tr by simp
  next
    case (Failure e)
    let ?le = "Log ''Error processing repository %s: %v'' [A_str (FullName repo), A_str e]"
    let ?s2 = "g_Log ''Error processing repository %s: %v'' [A_str (FullName repo), A_str e] s1"
    have rest: "process_repos E dry key repos ?s2 = (s', x)" using Cons.prems c Failure by simp
    note ih = Cons.IH [OF rest]
    have tr: "trace s' = trace s @ ((?l # since ?s0 s1 @ [?le]) @ since ?s2 s')"
      using ih ts by (simp add: trace_g_Log)
    have si: "since s s' = (?l # since ?s0 s1 @ [?le]) @ since ?s2 s'" using tr by (rule since_append)
    have "contents_calls (?l # since ?s0 s1 @ [?le]) = [(Owner_Login repo, Name repo, ''renovate.json'')]"
      using c1 by (simp add: contents_calls_def)
    then show ?thesis unfolding si contents_calls_append using ih tr by simp
  qed
qed


text \<open>
  What holds of the two modes for the errors that the workflow returns. In a run over
  the whole organization, a returned error is logged and the loop goes on with the rest
  of the list; the run ends with \<open>main\<close> returning (exit status 0), after the fetch of
  every repository of the collected list, in the order of the list, unless a panic ends
  it before, and none occurs in a world that delivers the file content with every
  successful content request. In a run for a single repository, a returned error ends
  the process through \<open>log.Fatalf\<close>, with exit status 1.
\<close>

lemma returned_errors_contained_or_fatal:
  assumes "githubToken f \<noteq> []" and "NewGitHubClient E s = (s1, None)"
  shows "(CheckAndUpdateRenovateConfig E
            (g_Log ''Processing repository: %s'' [A_str (FullName repo)] s4) repo dry key = (s5, Failure e)
          \<longrightarrow> process_repos E dry key (repo # rest) s4
               = process_repos E dry key rest
                   (g_Log ''Error processing repository %s: %v'' [A_str (FullName repo), A_str e] s5))
       \<and> (repoName f = [] \<and> FindReposWithRenovate E (orgName f) s1 = Some (s2, Inr repos) \<longrightarrow>
            (\<exists>s' x. main E f s = Some (s', x)
                \<and> (x = Returned \<or> x = Panicked)
                \<and> (x = Returned \<longrightarrow>
                     exit_status x = 0
                     \<and> contents_calls (since s2 s')
                         = map (\<lambda>r. (Owner_Login r, Name r, ''renovate.json'')) repos)
                \<and> ((\<forall>tr owner name path c resp.
                       Repositories_GetContents E tr owner name path = (c, resp, None) \<longrightarrow> c \<noteq> None)
                     \<longrightarrow> x = Returned)))
       \<and> (repoName f \<noteq> []
            \<and> Repositories_Get E (trace s1) (orgName f) (repoName f) = (single, None)
            \<and> CheckAndUpdateRenovateConfig E
                 (g_Log ''Processing single repository: %s'' [A_str (FullName single)]
                    (emit (Get_call (orgName f) (repoName f)) s1))
                 single (dryRun f) (gpgKeyID f) = (s3, Failure e') \<longrightarrow>
            main E f s
              = Some (s3, Fatal ''Error processing repository %s: %v'' [A_str (FullName single), A_str e'])
            \<and> exit_status (Fatal ''Error processing repository %s: %v'' [A_str (FullName single), A_str e']) = 1)"
proof (intro conjI impI)
  assume "CheckAndUpdateRenovateConfig E
            (g_Log ''Processing repository: %s'' [A_str (FullName repo)] s4) repo dry key = (s5, Failure e)"
  then show "process_repos E dry key (repo # rest) s4
               = process_repos E dry key rest
                   (g_Log ''Error processing repository %s: %v'' [A_str (FullName repo), A_str e] s5)"
    by simp
next
  assume a: "repoName f = [] \<and> FindReposWithRenovate E (orgName f) s1 = Some (s2, Inr repos)"
  let ?s3 = "g_Log ''Found %d repositories with renovate.json'' [A_int (int (length repos))] s2"
  obtain s' x where p: "process_repos E (dryRun f) (gpgKeyID f) repos ?s3 = (s', x)"
    by (cases "process_repos E (dryRun f) (gpgKeyID f) repos ?s3")
  note sp = process_repos_spec [OF p]
  have m: "main E f s = Some (s', x)"
    using assms a p by (simp add: main_def process_org_def)
  have "trace s' = trace s2 @ (Log ''Found %d repositories with renovate.json'' [A_int (int (length repos))]
          # since ?s3 s')"
    using sp by (simp add: trace_g_Log)
  then have si: "since s2 s' = Log ''Found %d repositories with renovate.json'' [A_int (int (length repos))]
          # since ?s3 s'"
    by (rule since_append)
  have "x = Returned \<longrightarrow> exit_status x = 0
           \<and> contents_calls (since s2 s') = map (\<lambda>r. (Owner_Login r, Name r, ''renovate.json'')) repos"
    unfolding si using sp by (simp add: contents_calls_def)
  then show "\<exists>s' x. main E f s = Some (s', x)
                \<and> (x = Returned \<or> x = Panicked)
                \<and> (x = Returned \<longrightarrow>
                     exit_status x = 0
                     \<and> contents_calls (since s2 s')
                         = map (\<lambda>r. (Owner_Login r, Name r, ''renovate.json'')) repos)
                \<and> ((\<forall>tr owner name path c resp.
                       Repositories_GetContents E tr owner name path = (c, resp, None) \<longrightarrow> c \<noteq> None)
                     \<longrightarrow> x = Returned)"
    using m sp by blast
next
  assume a: "repoName f \<noteq> []
            \<and> Repositories_Get E (trace s1) (orgName f) (repoName f) = (single, None)
            \<and> CheckAndUpdateRenovateConfig E
                 (g_Log ''Processing single repository: %s'' [A_str (FullName single)]
                    (emit (Get_call (orgName f) (repoName f)) s1))
                 single (dryRun f) (gpgKeyID f) = (s3, Failure e')"
  then show "main E f s
              = Some (s3, Fatal ''Error processing repository %s: %v'' [A_str (FullName single), A_str e'])"
    using assms by (simp add: main_def process_single_def)
next
  show "exit_status (Fatal ''Error processing repository %s: %v'' [A_str (FullName single), A_str e']) = 1"
    by simp
qed

lemma directory_fetch_failed:
  "CheckAndUpdateRenovateConfig acme_directory s repoC dry key
     = (emit (GetContents_call ''Acme'' ''C'' ''renovate.json'')
          (g_Log ''Getting renovate.json content'' []
             (g_Log ''Starting to check and update renovate config for repository: %s''
                [A_str ''Acme/C''] s)),
        Failure ''error getting renovate.json content: 404 Not Found'')"
proof -
  have "Repositories_GetContents acme_directory (before_fetch s repoC) (Owner_Login repoC) (Name repoC)
          ''renovate.json'' = (None, Some not_found_response, Some ''404 Not Found'')"
    by (simp add: acme_directory_def acme_def repoC_def)
  from CheckAndUpdate_fetch_failed [OF this, of dry key] show ?thesis
    by (simp add: repoC_def)
qed

lemma directory_panic:
  "CheckAndUpdateRenovateConfig acme_directory s repoB dry key
     = (g_Log ''Successfully retrieved renovate.json content'' []
          (emit (GetContents_call ''Acme'' ''B'' ''renovate.json'')
             (g_Log ''Getting renovate.json content'' []
                (g_Log ''Starting to check and update renovate config for repository: %s''
                   [A_str ''Acme/B''] s))),
        Panic)"
  by (simp add: CheckAndUpdateRenovateConfig_def acme_directory_def acme_def repoB_def Let_def)

lemma directory_crawl:
  "\<exists>s2. FindReposWithRenovate acme_directory ''Acme'' acme_ready = Some (s2, Inr [repoC, repoB, repoD])"
proof -
  have "\<exists>s2. page_step acme_directory ''Acme'' 0
          (g_Log ''Finding repositories with renovate.json for org: %s'' [A_str ''Acme''] acme_ready) []
        = Return (s2, Inr [repoC, repoB, repoD])"
    by (simp add: page_step_def acme_directory_def acme_def ok_response_def not_found_response_def
      g_Log_def emit_def Let_def paths_def check_path_def repoA_def repoB_def repoC_def repoD_def
      acme_ready_def)
  then obtain s2 where "page_step acme_directory ''Acme'' 0
          (g_Log ''Finding repositories with renovate.json for org: %s'' [A_str ''Acme''] acme_ready) []
        = Return (s2, Inr [repoC, repoB, repoD])"
    by blast
  then have "FindReposWithRenovate acme_directory ''Acme'' acme_ready = Some (s2, Inr [repoC, repoB, repoD])"
    unfolding FindReposWithRenovate_def
    by (subst page_loop.simps) (simp only: iteration.case)
  then show ?thesis by blast
qed

lemma directory_process:
  "\<exists>s'. process_repos acme_directory dry key [repoC, repoB, repoD] s = (s', Panicked)
       \<and> contents_calls (since s s')
           = [(''Acme'', ''C'', ''renovate.json''), (''Acme'', ''B'', ''renovate.json'')]"
  by (simp add: directory_fetch_failed directory_panic since_def trace_g_Log trace_emit
      contents_calls_def)

text \<open>
  C5 fails on the code. In a run over the whole organization the loop of \<open>main\<close> logs
  the error that the workflow returns for a repository and goes on, but the workflow
  does not always return: it calls \<open>GetContent\<close> on the content that the request
  delivered without looking whether there is one, and the request delivers none, with
  no error, when \<open>renovate.json\<close> is a directory. In this world the crawl collects
  \<open>C\<close>, \<open>B\<close> and \<open>D\<close>. The workflow returns an error for \<open>C\<close> (its file is at
  the nested path), the loop goes on with \<open>B\<close>, whose \<open>renovate.json\<close> is a
  directory, and the run ends there in a panic, with exit status 2: \<open>D\<close>, which comes
  after \<open>C\<close> in the list, is never processed.
\<close>

theorem nil_content_aborts_run:
  "\<exists>s2 s'.
     NewGitHubClient acme_directory start = (acme_ready, None)
     \<and> FindReposWithRenovate acme_directory (orgName org_flags) acme_ready
         = Some (s2, Inr [repoC, repoB, repoD])
     \<and> snd (CheckAndUpdateRenovateConfig acme_directory
              (g_Log ''Processing repository: %s'' [A_str (FullName repoC)]
                 (g_Log ''Found %d repositories with renovate.json'' [A_int 3] s2))
              repoC (dryRun org_flags) (gpgKeyID org_flags))
         = Failure ''error getting renovate.json content: 404 Not Found''
     \<and> main acme_directory org_flags start = Some (s', Panicked)
     \<and> exit_status Panicked = 2
     \<and> contents_calls
          (since (g_Log ''Found %d repositories with renovate.json'' [A_int 3] s2) s')
         = [(''Acme'', ''C'', ''renovate.json''), (''Acme'', ''B'', ''renovate.json'')]"
proof -
  have n: "NewGitHubClient acme_directory start = (acme_ready, None)"
    by (simp add: NewGitHubClient_def acme_directory_def acme_def start_def emit_def acme_ready_def)
  have o: "repoName org_flags = []" "orgName org_flags = ''Acme''" "githubToken org_flags \<noteq> []"
    by (simp_all add: org_flags_def)
  obtain s2 where c: "FindReposWithRenovate acme_directory ''Acme'' acme_ready
      = Some (s2, Inr [repoC, repoB, repoD])"
    using directory_crawl by blast
  let ?s3 = "g_Log ''Found %d repositories with renovate.json'' [A_int 3] s2"
  obtain s' where p: "process_repos acme_directory (dryRun org_flags) (gpgKeyID org_flags)
        [repoC, repoB, repoD] ?s3 = (s', Panicked)"
      "contents_calls (since ?s3 s')
         = [(''Acme'', ''C'', ''renovate.json''), (''Acme'', ''B'', ''renovate.json'')]"
    using directory_process [of "dryRun org_flags" "gpgKeyID org_flags" ?s3] by blast
  have m: "main acme_directory org_flags start = Some (s', Panicked)"
    using n o c p(1) by (simp add: main_def process_org_def)
  have f: "snd (CheckAndUpdateRenovateConfig acme_directory
              (g_Log ''Processing repository: %s'' [A_str (FullName repoC)] ?s3)
              repoC (dryRun org_flags) (gpgKeyID org_flags))
         = Failure ''error getting renovate.json content: 404 Not Found''"
    by (simp add: directory_fetch_failed)
  have e: "exit_status Panicked = 2" by simp
  show ?thesis using n c [folded o(2)] f m e p(2) by blast
qed

end
